theory Spec2Isabelle
  imports Complex_Main
begin

section \<open>Timeline interval algebra of the hardcut pipeline\<close>

text \<open>
  The Python sources compute on \<^verbatim>\<open>float\<close> seconds. Times are modelled as exact
  real numbers: comparisons, \<^verbatim>\<open>min\<close>, \<^verbatim>\<open>max\<close>, \<^verbatim>\<open>abs\<close>, sums and differences are the
  mathematical ones, and NaN or infinite inputs are outside the model. Every branch,
  guard, raise and early return of the source is a branch of the model.
\<close>

subsection \<open>Errors and constants (hardcut.py)\<close>

datatype error = IndexError | ValueError string

type_synonym interval = "real \<times> real"

definition EPS :: real where
  "EPS = 1 / 1000000"

subsection \<open>\<^verbatim>\<open>_merge_intervals\<close> (hardcut.py, lines 57-73)\<close>

text \<open>
  The comprehension of line 60: pairs with \<^verbatim>\<open>abs(b - a) > EPS\<close> are kept and
  normalised to \<^verbatim>\<open>(min(a, b), max(a, b))\<close>.
\<close>

definition normalize :: "interval list \<Rightarrow> interval list" where
  "normalize intervals =
     map (\<lambda>(a, b). (min a b, max a b)) (filter (\<lambda>(a, b). \<bar>b - a\<bar> > EPS) intervals)"

text \<open>
  The sweep of lines 66-72, with the running interval \<^verbatim>\<open>(cur_s, cur_e)\<close> as arguments;
  the result is the list \<^verbatim>\<open>merged\<close> in the order of the appends.
\<close>

fun sweep :: "real \<Rightarrow> real \<Rightarrow> interval list \<Rightarrow> interval list" where
  "sweep cur_s cur_e [] = [(cur_s, cur_e)]"
| "sweep cur_s cur_e ((s, e) # rest) =
     (if s \<le> cur_e + EPS then sweep cur_s (max cur_e e) rest
      else (cur_s, cur_e) # sweep s e rest)"

text \<open>
  \<^verbatim>\<open>list.sort(key=...)\<close> is a stable sort, as \<^const>\<open>sort_key\<close> is. Line 64 reads
  \<^verbatim>\<open>intervals[0]\<close> of the filtered list, which raises \<^verbatim>\<open>IndexError\<close> when the filter
  has left nothing.
\<close>

definition merge_intervals :: "interval list \<Rightarrow> error + interval list" where
  "merge_intervals intervals =
     (if intervals = [] then Inr []
      else (case sort_key fst (normalize intervals) of
              [] \<Rightarrow> Inl IndexError
            | (cur_s, cur_e) # rest \<Rightarrow> Inr (sweep cur_s cur_e rest)))"

text \<open>Applying the merger to its own result; a raise of the first call propagates.\<close>

definition merge_twice :: "interval list \<Rightarrow> error + interval list" where
  "merge_twice intervals =
     (case merge_intervals intervals of
        Inl err \<Rightarrow> Inl err
      | Inr merged \<Rightarrow> merge_intervals merged)"

subsection \<open>\<^verbatim>\<open>_build_keeps\<close> and \<^verbatim>\<open>_compute_offsets\<close> (hardcut.py, lines 76-94)\<close>

text \<open>The loop of lines 79-84 with the cursor \<^verbatim>\<open>cur\<close> as argument.\<close>

fun keeps_from :: "real \<Rightarrow> interval list \<Rightarrow> real \<Rightarrow> interval list" where
  "keeps_from cur [] duration = (if duration - cur > EPS then [(cur, duration)] else [])"
| "keeps_from cur ((s, e) # cuts) duration =
     (if s - cur > EPS then (cur, s) # keeps_from (max cur e) cuts duration
      else keeps_from (max cur e) cuts duration)"

definition build_keeps :: "interval list \<Rightarrow> real \<Rightarrow> interval list" where
  "build_keeps cuts duration = keeps_from 0 cuts duration"

fun offsets_from :: "real \<Rightarrow> interval list \<Rightarrow> real list \<times> real" where
  "offsets_from acc [] = ([], acc)"
| "offsets_from acc ((s, e) # keeps) =
     (case offsets_from (acc + (e - s)) keeps of (offs, acc') \<Rightarrow> (acc # offs, acc'))"

definition compute_offsets :: "interval list \<Rightarrow> real list \<times> real" where
  "compute_offsets keeps = offsets_from 0 keeps"

subsection \<open>Rounding\<close>

text \<open>
  \<^verbatim>\<open>round(x)\<close> of Python rounds to the nearest integer, a tie to the even one;
  \<^verbatim>\<open>round(x, n)\<close> does so at the \<open>n\<close>-th decimal.
\<close>

definition py_round :: "real \<Rightarrow> int" where
  "py_round x =
     (let f = \<lfloor>x\<rfloor>; d = x - of_int f
      in if d < 1 / 2 then f else if 1 / 2 < d then f + 1 else if even f then f else f + 1)"

definition round_nd :: "real \<Rightarrow> nat \<Rightarrow> real" where
  "round_nd x n = of_int (py_round (x * 10 ^ n)) / 10 ^ n"

subsection \<open>The analysis document\<close>

text \<open>
  The JSON document as far as the timeline code reads it. A field read with
  \<^verbatim>\<open>.get(key, default)\<close> is an option, \<open>None\<close> for a missing key; values that
  \<^verbatim>\<open>float()\<close> rejects are outside the model. The \<^verbatim>\<open>shots\<close> dictionary is the list of
  its items in insertion order, each value a list of which the code reads the head.
\<close>

record raw_seg =
  rseg_start :: "real option"
  rseg_end :: "real option"
  rseg_text :: string

record raw_shot =
  rs_start :: "real option"
  rs_end :: "real option"
  rs_probability :: "real option"
  rs_segments :: "raw_seg list"

record document =
  vid_duration :: "real option"
  vid_fps :: "real option"
  doc_shots :: "(string \<times> raw_shot list) list"

definition get_or :: "'a option \<Rightarrow> 'a \<Rightarrow> 'a" where
  "get_or v d = (case v of None \<Rightarrow> d | Some x \<Rightarrow> x)"

text \<open>\<^verbatim>\<open>_collect_shots\<close> (hardcut.py lines 29-36, final_mapping.py lines 27-37).\<close>

definition first_shots :: "(string \<times> raw_shot list) list \<Rightarrow> raw_shot list" where
  "first_shots items =
     concat (map (\<lambda>(_, lst). case lst of [] \<Rightarrow> [] | shot # _ \<Rightarrow> [shot]) items)"

definition collect_shots :: "document \<Rightarrow> raw_shot list" where
  "collect_shots data = sort_key (\<lambda>s. get_or (rs_start s) 0) (first_shots (doc_shots data))"

text \<open>\<^verbatim>\<open>_collect_segments\<close> (hardcut.py lines 39-47).\<close>

definition collect_segments :: "document \<Rightarrow> raw_seg list" where
  "collect_segments data = concat (map rs_segments (first_shots (doc_shots data)))"

subsection \<open>The cut-set builder (hardcut.py, lines 50-55 and 97-148)\<close>

definition TRIM_HEAD_SEC :: real where "TRIM_HEAD_SEC = 2"
definition TRIM_TAIL_SEC :: real where "TRIM_TAIL_SEC = 2"
definition SHOT_MARGIN_SEC :: real where "SHOT_MARGIN_SEC = 3.5"
definition LONG_SEG_THRESH_SEC :: real where "LONG_SEG_THRESH_SEC = 15"
definition SEG_TAIL_CUT_SEC :: real where "SEG_TAIL_CUT_SEC = 2"

text \<open>\<^verbatim>\<open>_add_interval\<close> appends to the list it is given; the model returns the new list.\<close>

definition add_interval :: "interval list \<Rightarrow> real \<Rightarrow> real \<Rightarrow> real \<Rightarrow> interval list" where
  "add_interval intervals s e duration =
     (let s' = max 0 (min s duration); e' = max 0 (min e duration)
      in if e' - s' > EPS then intervals @ [(s', e')] else intervals)"

text \<open>The loop of lines 119-121 over \<^verbatim>\<open>shots[1:]\<close>.\<close>

fun add_shot_cuts :: "interval list \<Rightarrow> raw_shot list \<Rightarrow> real \<Rightarrow> interval list" where
  "add_shot_cuts cuts [] duration = cuts"
| "add_shot_cuts cuts (shot # shots) duration =
     (let t = get_or (rs_start shot) 0
      in add_shot_cuts (add_interval cuts (t - SHOT_MARGIN_SEC) (t + SHOT_MARGIN_SEC) duration)
           shots duration)"

text \<open>The loop of lines 124-135 over the segments.\<close>

fun add_seg_cuts :: "interval list \<Rightarrow> raw_seg list \<Rightarrow> real \<Rightarrow> interval list" where
  "add_seg_cuts cuts [] duration = cuts"
| "add_seg_cuts cuts (seg # segs) duration =
     (let s = get_or (rseg_start seg) 0; e = get_or (rseg_end seg) 0
      in if e \<le> s then add_seg_cuts cuts segs duration
         else if e - s \<ge> LONG_SEG_THRESH_SEC
           then add_seg_cuts (add_interval cuts (e - SEG_TAIL_CUT_SEC) e duration) segs duration
           else add_seg_cuts cuts segs duration)"

text \<open>
  The message of the \<^verbatim>\<open>ValueError\<close> of line 103 is a fixed literal; its non-ASCII
  remainder is left out here.
\<close>

definition hardcut_duration_message :: string where
  "hardcut_duration_message = ''[hardcut] video.duration''"

definition compute_cut_and_keep_intervals ::
  "document \<Rightarrow> error + (interval list \<times> interval list \<times> real)" where
  "compute_cut_and_keep_intervals data =
     (let duration = get_or (vid_duration data) 0
      in if duration \<le> 0 then Inl (ValueError hardcut_duration_message)
         else
           let shots = collect_shots data;
               segments = collect_segments data;
               cuts0 = add_interval [] 0 TRIM_HEAD_SEC duration;
               cuts1 = add_interval cuts0 (duration - TRIM_TAIL_SEC) duration duration;
               cuts2 = add_shot_cuts cuts1 (tl shots) duration;
               cuts3 = add_seg_cuts cuts2 segments duration
           in (case merge_intervals cuts3 of
                 Inl err \<Rightarrow> Inl err
               | Inr cuts_merged \<Rightarrow> Inr (cuts_merged, build_keeps cuts_merged duration, duration)))"

text \<open>
  \<^verbatim>\<open>main\<close> (lines 388-396) once both input files exist: what it does with the
  intervals. It returns after printing a message when there is no keep interval, and
  goes on to rebuild the document and cut the video otherwise. An exception of
  \<^verbatim>\<open>compute_cut_and_keep_intervals\<close> is not caught.
\<close>

datatype main_outcome =
  ReturnedNoKeeps
  | Proceeded "interval list" "interval list" real

definition main_intervals :: "document \<Rightarrow> error + main_outcome" where
  "main_intervals data =
     (case compute_cut_and_keep_intervals data of
        Inl err \<Rightarrow> Inl err
      | Inr (cuts, keeps, duration) \<Rightarrow>
          if keeps = [] then Inr ReturnedNoKeeps
          else Inr (Proceeded cuts keeps (snd (compute_offsets keeps))))"

subsection \<open>The timeline remapper (hardcut.py, lines 171-220)\<close>

text \<open>
  A flattened segment: the copy of a segment with \<^verbatim>\<open>_orig_seg_start\<close> and
  \<^verbatim>\<open>_orig_seg_end\<close>; a remapped segment: the copy with \<^verbatim>\<open>orig_start\<close>,
  \<^verbatim>\<open>orig_end\<close>, \<^verbatim>\<open>start\<close> and \<^verbatim>\<open>end\<close> set.
\<close>

record flat_seg =
  fs_text :: string
  orig_seg_start :: real
  orig_seg_end :: real

record segment =
  seg_text :: string
  orig_start :: real
  orig_end :: real
  seg_start :: real
  seg_end :: real

text \<open>
  Lines 171-190. The keys are sorted by the start of their first shot, 0 for an empty
  list; a missing segment start or end reads as 0.
\<close>

definition shot_start_key :: "string \<times> raw_shot list \<Rightarrow> real" where
  "shot_start_key item =
     (case snd item of [] \<Rightarrow> 0 | shot # _ \<Rightarrow> get_or (rs_start shot) 0)"

definition flatten :: "document \<Rightarrow> flat_seg list" where
  "flatten data =
     concat (map (\<lambda>shot. map (\<lambda>seg. \<lparr>fs_text = rseg_text seg,
                                      orig_seg_start = get_or (rseg_start seg) 0,
                                      orig_seg_end = get_or (rseg_end seg) 0\<rparr>)
                            (rs_segments shot))
                 (first_shots (sort_key shot_start_key (doc_shots data))))"

text \<open>The loop of lines 193-205 with the running offset \<^verbatim>\<open>t\<close>; the result carries the final \<^verbatim>\<open>t\<close>.\<close>

fun remap_from :: "real \<Rightarrow> flat_seg list \<Rightarrow> segment list \<times> real" where
  "remap_from t [] = ([], t)"
| "remap_from t (seg # flat) =
     (let s_orig = orig_seg_start seg; e_orig = orig_seg_end seg;
          len = max (e_orig - s_orig) 0
      in if len \<le> 0.01 then remap_from t flat
         else (case remap_from (t + len) flat of
                 (new_segments, t') \<Rightarrow>
                   (\<lparr>seg_text = fs_text seg,
                     orig_start = round_nd s_orig 3, orig_end = round_nd e_orig 3,
                     seg_start = round_nd t 2, seg_end = round_nd (t + len) 2\<rparr> # new_segments,
                    t')))"

text \<open>The loop of lines 213-219.\<close>

fun rescale_from :: "real \<Rightarrow> real \<Rightarrow> segment list \<Rightarrow> segment list \<times> real" where
  "rescale_from ratio t [] = ([], t)"
| "rescale_from ratio t (seg # segs) =
     (let len = seg_end seg - seg_start seg; new_len = len * ratio
      in (case rescale_from ratio (t + new_len) segs of
            (segs', t') \<Rightarrow>
              (seg\<lparr>seg_start := round_nd t 2, seg_end := round_nd (t + new_len) 2\<rparr> # segs',
               t')))"

text \<open>Lines 192-220: the remapped segments and \<^verbatim>\<open>logical_duration\<close>.\<close>

definition remap_segments :: "flat_seg list \<Rightarrow> real \<Rightarrow> segment list \<times> real" where
  "remap_segments flat hardcut_duration =
     (case remap_from 0 flat of
        (new_segments, logical_duration) \<Rightarrow>
          if hardcut_duration > 0 \<and> logical_duration > hardcut_duration + 1 / 1000
          then rescale_from (hardcut_duration / logical_duration) 0 new_segments
          else (new_segments, logical_duration))"

subsection \<open>The shot reconstructor (hardcut.py, lines 222-276)\<close>

text \<open>The inner loop of lines 229-234 with the accumulator \<^verbatim>\<open>kept_len\<close>.\<close>

fun kept_len_from :: "real \<Rightarrow> real \<Rightarrow> real \<Rightarrow> interval list \<Rightarrow> real" where
  "kept_len_from s0 e0 kept [] = kept"
| "kept_len_from s0 e0 kept ((ks, ke) # keeps) =
     (let inter_s = max s0 ks; inter_e = min e0 ke
      in if inter_e - inter_s > EPS
         then kept_len_from s0 e0 (kept + (inter_e - inter_s)) keeps
         else kept_len_from s0 e0 kept keeps)"

record shot_info =
  si_orig_start :: real
  si_orig_end :: real
  si_probability :: real
  si_kept_len :: real

definition shot_infos :: "raw_shot list \<Rightarrow> interval list \<Rightarrow> shot_info list" where
  "shot_infos orig_shots keeps =
     map (\<lambda>shot. let s0 = get_or (rs_start shot) 0; e0 = get_or (rs_end shot) 0
                  in \<lparr>si_orig_start = s0, si_orig_end = e0,
                      si_probability = get_or (rs_probability shot) 1,
                      si_kept_len = kept_len_from s0 e0 0 keeps\<rparr>)
         orig_shots"

record new_shot =
  ns_start :: real
  ns_end :: real
  ns_start_frame :: int
  ns_end_frame :: int
  ns_probability :: real
  ns_segments :: "segment list"

text \<open>The loop of lines 245-262 with the cursor \<^verbatim>\<open>cur\<close>.\<close>

fun new_shots_from :: "real \<Rightarrow> real \<Rightarrow> shot_info list \<Rightarrow> new_shot list" where
  "new_shots_from fps cur [] = []"
| "new_shots_from fps cur (info # infos) =
     (let kept_len = si_kept_len info
      in if kept_len \<le> EPS then new_shots_from fps cur infos
         else
           let s_new = cur; e_new = cur + kept_len
           in \<lparr>ns_start = round_nd s_new 3, ns_end = round_nd e_new 3,
               ns_start_frame = py_round (s_new * fps), ns_end_frame = py_round (e_new * fps),
               ns_probability = si_probability info, ns_segments = []\<rparr>
              # new_shots_from fps e_new infos)"

text \<open>Lines 244-276: the new shots, or the single fallback shot when there is none.\<close>

definition new_shots_list :: "real \<Rightarrow> real \<Rightarrow> shot_info list \<Rightarrow> new_shot list" where
  "new_shots_list fps logical_duration infos =
     (let shots = new_shots_from fps 0 infos
      in if shots = []
         then [\<lparr>ns_start = 0, ns_end = round_nd logical_duration 3,
                ns_start_frame = 0, ns_end_frame = py_round (logical_duration * fps),
                ns_probability = 1, ns_segments = []\<rparr>]
         else shots)"

subsection \<open>Attaching segments to shots (hardcut.py, lines 278-291)\<close>

definition append_segment :: "new_shot \<Rightarrow> segment \<Rightarrow> new_shot" where
  "append_segment shot seg = shot\<lparr>ns_segments := ns_segments shot @ [seg]\<rparr>"

definition contains_mid :: "new_shot \<Rightarrow> real \<Rightarrow> bool" where
  "contains_mid shot mid = (ns_start shot - 1 / 1000000 \<le> mid \<and> mid \<le> ns_end shot + 1 / 1000000)"

text \<open>
  The inner loop of lines 283-289: the segment goes to the first shot that contains
  \<open>mid\<close> and the loop breaks; \<open>None\<close> when the loop ends with \<^verbatim>\<open>attached\<close> false.
\<close>

fun attach_first :: "real \<Rightarrow> segment \<Rightarrow> new_shot list \<Rightarrow> new_shot list option" where
  "attach_first mid seg [] = None"
| "attach_first mid seg (shot # shots) =
     (if contains_mid shot mid then Some (append_segment shot seg # shots)
      else (case attach_first mid seg shots of
              None \<Rightarrow> None
            | Some shots' \<Rightarrow> Some (shot # shots')))"

definition seg_mid :: "segment \<Rightarrow> real" where
  "seg_mid seg = 0.5 * (seg_start seg + seg_end seg)"

text \<open>\<^verbatim>\<open>new_shots_list[-1]\<close> of an empty list raises \<^verbatim>\<open>IndexError\<close>.\<close>

definition attach_segment :: "new_shot list \<Rightarrow> segment \<Rightarrow> error + new_shot list" where
  "attach_segment shots seg =
     (case attach_first (seg_mid seg) seg shots of
        Some shots' \<Rightarrow> Inr shots'
      | None \<Rightarrow>
          if shots = [] then Inl IndexError
          else Inr (butlast shots @ [append_segment (last shots) seg]))"

fun attach_all :: "new_shot list \<Rightarrow> segment list \<Rightarrow> error + new_shot list" where
  "attach_all shots [] = Inr shots"
| "attach_all shots (seg # segs) =
     (case attach_segment shots seg of
        Inl err \<Rightarrow> Inl err
      | Inr shots' \<Rightarrow> attach_all shots' segs)"

text \<open>
  \<^verbatim>\<open>rebuild_json_with_shots\<close>: the new shots with their segments, in the order of
  their keys \<^verbatim>\<open>shot_1\<close>, \<^verbatim>\<open>shot_2\<close>, \<dots> (lines 303-306), and the value that line 298
  stores as \<^verbatim>\<open>logical_duration\<close>, rounded to three decimals.
\<close>

definition rebuild_json_with_shots ::
  "document \<Rightarrow> interval list \<Rightarrow> real \<Rightarrow> error + (new_shot list \<times> real)" where
  "rebuild_json_with_shots data keeps hardcut_duration =
     (let fps = get_or (vid_fps data) 30
      in (case remap_segments (flatten data) hardcut_duration of
            (new_segments, logical_duration) \<Rightarrow>
              (case attach_all
                      (new_shots_list fps logical_duration
                         (shot_infos (collect_shots data) keeps))
                      new_segments of
                 Inl err \<Rightarrow> Inl err
               | Inr shots \<Rightarrow> Inr (shots, round_nd logical_duration 3))))"

subsection \<open>The window partitioner, greedy variant (bgm_create.py, lines 28-78)\<close>

text \<open>
  \<^verbatim>\<open>_extract_shots\<close> keeps the key, start, end and segments of every first shot,
  sorted by start; \<^verbatim>\<open>_build_bgm_groups\<close> reads the start and end only, so a shot is
  the pair of them here.
\<close>

definition extract_shots :: "document \<Rightarrow> interval list" where
  "extract_shots data =
     sort_key fst (map (\<lambda>shot. (get_or (rs_start shot) 0, get_or (rs_end shot) 0))
                       (first_shots (doc_shots data)))"

text \<open>The loop of lines 55-69 with the running window \<^verbatim>\<open>(cur_start, cur_end)\<close>.\<close>

fun groups_from :: "real \<Rightarrow> real \<Rightarrow> real \<Rightarrow> interval list \<Rightarrow> interval list" where
  "groups_from min_window cur_start cur_end [] = [(cur_start, cur_end)]"
| "groups_from min_window cur_start cur_end ((s, e) # shots) =
     (let cur_end' = (if s > cur_end then s else cur_end);
          cur_len = cur_end' - cur_start
      in if cur_len < min_window then groups_from min_window cur_start e shots
         else (cur_start, cur_end') # groups_from min_window s e shots)"

text \<open>Lines 71-76: a last window shorter than the minimum is merged into the one before.\<close>

definition merge_short_tail :: "real \<Rightarrow> interval list \<Rightarrow> interval list" where
  "merge_short_tail min_window groups =
     (if length groups \<ge> 2
      then (case last groups of
              (last_s, last_e) \<Rightarrow>
                if last_e - last_s < min_window
                then (case groups ! (length groups - 2) of
                        (prev_s, prev_e) \<Rightarrow> take (length groups - 2) groups @ [(prev_s, last_e)])
                else groups)
      else groups)"

definition build_bgm_groups :: "interval list \<Rightarrow> real \<Rightarrow> interval list" where
  "build_bgm_groups shots min_window =
     (case shots of
        [] \<Rightarrow> []
      | (s0, e0) # rest \<Rightarrow> merge_short_tail min_window (groups_from min_window s0 e0 rest))"

subsection \<open>The window partitioner, boundary variant (final_mapping.py, lines 40-73)\<close>

definition MIN_BGM_SEC :: real where "MIN_BGM_SEC = 15"

definition final_duration_message :: string where
  "final_duration_message = ''[final] video.duration''"

text \<open>The loop of lines 63-71 with the cursor \<^verbatim>\<open>cur_start\<close>.\<close>

fun accept_from :: "real \<Rightarrow> real \<Rightarrow> real \<Rightarrow> real list \<Rightarrow> interval list" where
  "accept_from min_bgm_sec duration cur_start [] =
     (if duration - cur_start > 0.1 then [(cur_start, duration)] else [])"
| "accept_from min_bgm_sec duration cur_start (t # boundaries) =
     (let front = t - cur_start; back = duration - t
      in if front \<ge> min_bgm_sec \<and> back \<ge> min_bgm_sec
         then (cur_start, t) # accept_from min_bgm_sec duration t boundaries
         else accept_from min_bgm_sec duration cur_start boundaries)"

definition shot_boundaries :: "raw_shot list \<Rightarrow> real \<Rightarrow> real list" where
  "shot_boundaries shots duration =
     sort (filter (\<lambda>t. 0 < t \<and> t < duration) (map (\<lambda>s. get_or (rs_start s) 0) (tl shots)))"

definition compute_bgm_groups :: "document \<Rightarrow> real \<Rightarrow> error + interval list" where
  "compute_bgm_groups data min_bgm_sec =
     (let duration = get_or (vid_duration data) 0
      in if duration \<le> 0 then Inl (ValueError final_duration_message)
         else
           let shots = collect_shots data
           in if shots = [] then Inr [(0, duration)]
              else Inr (accept_from min_bgm_sec duration 0 (shot_boundaries shots duration)))"

subsection \<open>Windows as a chain\<close>

text \<open>
  The windows are ordered, each well-formed, each starting where the one before ends,
  the first at \<open>a\<close> and the last ending at \<open>b\<close>: they cover \<open>[a, b]\<close> with no gap and
  no overlap.
\<close>

fun chain :: "real \<Rightarrow> interval list \<Rightarrow> real \<Rightarrow> bool" where
  "chain a [] b = (a = b)"
| "chain a ((s, e) # ws) b = (s = a \<and> s \<le> e \<and> chain e ws b)"

text \<open>Shots sorted, well-formed and not overlapping, the first starting at or after \<open>lo\<close>.\<close>

fun shots_ordered :: "real \<Rightarrow> interval list \<Rightarrow> bool" where
  "shots_ordered lo [] = True"
| "shots_ordered lo ((s, e) # shots) = (lo \<le> s \<and> s \<le> e \<and> shots_ordered e shots)"

text \<open>
  Every window of the list is at least \<open>min_window\<close> long; the end of the last shot,
  or of the running window when no shot is left.
\<close>

definition long_enough :: "real \<Rightarrow> interval list \<Rightarrow> bool" where
  "long_enough min_window ws = list_all (\<lambda>(s, e). min_window \<le> e - s) ws"

definition span_end :: "real \<Rightarrow> interval list \<Rightarrow> real" where
  "span_end cur_end shots = (if shots = [] then cur_end else snd (last shots))"

subsection \<open>The attachment rule in the words of the specification\<close>

text \<open>
  The index of the first shot whose interval contains the midpoint, and the shot a
  segment is attached to: that one, or the last shot when there is none.
\<close>

fun spec_first_containing :: "new_shot list \<Rightarrow> real \<Rightarrow> nat option" where
  "spec_first_containing [] mid = None"
| "spec_first_containing (shot # shots) mid =
     (if contains_mid shot mid then Some 0 else map_option Suc (spec_first_containing shots mid))"

definition spec_target :: "new_shot list \<Rightarrow> real \<Rightarrow> nat" where
  "spec_target shots mid =
     (case spec_first_containing shots mid of Some i \<Rightarrow> i | None \<Rightarrow> length shots - 1)"

subsection \<open>The shot reconstructor in the words of the specification\<close>

text \<open>
  The overlap of two intervals and the kept length as the sum of the overlaps; the
  shots that survive, and the cursor in front of the \<open>j\<close>-th survivor: the sum of the
  kept lengths of the survivors before it.
\<close>

definition overlap :: "interval \<Rightarrow> interval \<Rightarrow> real" where
  "overlap a b = max 0 (min (snd a) (snd b) - max (fst a) (fst b))"

definition spec_kept_length :: "interval \<Rightarrow> interval list \<Rightarrow> real" where
  "spec_kept_length shot keeps = sum_list (map (overlap shot) keeps)"

definition survivors :: "shot_info list \<Rightarrow> shot_info list" where
  "survivors infos = filter (\<lambda>info. si_kept_len info > EPS) infos"

definition cursor_at :: "shot_info list \<Rightarrow> nat \<Rightarrow> real" where
  "cursor_at infos j = sum_list (map si_kept_len (take j (survivors infos)))"

subsection \<open>The remapper in the words of the specification\<close>

text \<open>
  Segments in traversal order, each ending where the next starts, none ending before
  it starts, from \<open>a\<close> to \<open>b\<close>; the original length of a flattened segment and the
  test that keeps it; a segment with start and end scaled by a factor.
\<close>

fun seg_chain :: "real \<Rightarrow> segment list \<Rightarrow> real \<Rightarrow> bool" where
  "seg_chain a [] b = (a = b)"
| "seg_chain a (seg # segs) b =
     (seg_start seg = a \<and> seg_start seg \<le> seg_end seg \<and> seg_chain (seg_end seg) segs b)"

definition flat_len :: "flat_seg \<Rightarrow> real" where
  "flat_len seg = max (orig_seg_end seg - orig_seg_start seg) 0"

definition long_seg :: "flat_seg \<Rightarrow> bool" where
  "long_seg seg = (0.01 < flat_len seg)"

definition spec_rescaled :: "real \<Rightarrow> segment \<Rightarrow> segment" where
  "spec_rescaled ratio seg =
     seg\<lparr>seg_start := round_nd (ratio * seg_start seg) 2,
         seg_end := round_nd (ratio * seg_end seg) 2\<rparr>"

subsection \<open>Predicates on interval lists\<close>

definition total_len :: "interval list \<Rightarrow> real" where
  "total_len ivs = sum_list (map (\<lambda>(s, e). e - s) ivs)"

text \<open>Consecutive intervals lie more than \<open>EPS\<close> apart, each is longer than \<open>EPS\<close>.\<close>

fun separated :: "interval list \<Rightarrow> bool" where
  "separated [] = True"
| "separated [(s, e)] = (e - s > EPS)"
| "separated ((s, e) # (s', e') # rest) =
     (e - s > EPS \<and> s' > e + EPS \<and> separated ((s', e') # rest))"

text \<open>
  A cut-set sorted ascending, pairwise disjoint and contained in \<open>[lo, duration]\<close>:
  \<open>lo \<le> s\<^sub>1 \<le> e\<^sub>1 \<le> s\<^sub>2 \<le> e\<^sub>2 \<le> \<dots> \<le> duration\<close>.
\<close>

fun cuts_within :: "real \<Rightarrow> interval list \<Rightarrow> real \<Rightarrow> bool" where
  "cuts_within lo [] duration = (lo \<le> duration)"
| "cuts_within lo ((s, e) # cuts) duration = (lo \<le> s \<and> s \<le> e \<and> cuts_within e cuts duration)"

text \<open>The point \<open>x\<close> lies in an interval of the list, up to the tolerance \<open>tol\<close>.\<close>

definition covered :: "real \<Rightarrow> interval list \<Rightarrow> real \<Rightarrow> bool" where
  "covered tol ivs x = list_ex (\<lambda>(s, e). s - tol \<le> x \<and> x \<le> e + tol) ivs"

text \<open>No interval of the first list overlaps an interval of the second.\<close>

definition no_overlap :: "interval list \<Rightarrow> interval list \<Rightarrow> bool" where
  "no_overlap ks cs = list_all (\<lambda>(ks, ke). list_all (\<lambda>(cs, ce). ke \<le> cs \<or> ce \<le> ks) cs) ks"


section \<open>Properties of the interval merger\<close>

lemma sweep_not_Nil: "sweep cur_s cur_e ivs \<noteq> []"
  by (induction cur_s cur_e ivs rule: sweep.induct) auto

lemma sweep_hd: "fst (hd (sweep cur_s cur_e ivs)) = cur_s"
  by (induction cur_s cur_e ivs rule: sweep.induct) auto

lemma separated_Cons:
  "ys \<noteq> [] \<Longrightarrow> separated ((s, e) # ys) =
     (e - s > EPS \<and> fst (hd ys) > e + EPS \<and> separated ys)"
  by (cases ys) auto

lemma sweep_separated:
  "cur_e - cur_s > EPS \<Longrightarrow> \<forall>p \<in> set ivs. snd p - fst p > EPS
     \<Longrightarrow> separated (sweep cur_s cur_e ivs)"
proof (induction cur_s cur_e ivs rule: sweep.induct)
  case (1 cur_s cur_e)
  then show ?case by simp
next
  case (2 cur_s cur_e s e rest)
  show ?case
  proof (cases "s \<le> cur_e + EPS")
    case True
    have "max cur_e e - cur_s > EPS" using "2.prems"(1) by simp
    with True "2.IH"(1) "2.prems" show ?thesis by simp
  next
    case False
    have len: "e - s > EPS" using "2.prems"(2) by simp
    have "separated (sweep s e rest)"
      using False "2.IH"(2) len "2.prems" by simp
    then show ?thesis
      using False "2.prems"(1) by (simp add: separated_Cons sweep_not_Nil sweep_hd)
  qed
qed

text \<open>On a separated list the merger changes nothing.\<close>

lemma separated_sorted: "separated ivs \<Longrightarrow> sorted (map fst ivs)"
proof (induction ivs rule: separated.induct)
  case (3 s e s' e' rest)
  have "\<forall>p \<in> set ((s', e') # rest). s' \<le> fst p"
    using "3.prems" "3.IH" by auto
  moreover have "s \<le> s'" using "3.prems" by (simp add: EPS_def)
  ultimately show ?case using "3.prems" "3.IH" by auto
qed simp_all

lemma separated_long: "separated ivs \<Longrightarrow> \<forall>p \<in> set ivs. snd p - fst p > EPS"
  by (induction ivs rule: separated.induct) auto

lemma normalize_id: "\<forall>p \<in> set ivs. snd p - fst p > EPS \<Longrightarrow> normalize ivs = ivs"
proof -
  assume a: "\<forall>p \<in> set ivs. snd p - fst p > EPS"
  have pos: "0 < EPS" by (simp add: EPS_def)
  have f: "filter (\<lambda>(a, b). \<bar>b - a\<bar> > EPS) ivs = ivs"
    using a by (intro filter_True) (auto simp: case_prod_beta)
  have m: "map (\<lambda>(a, b). (min a b, max a b)) ivs = ivs"
    using a pos by (intro map_idI) (auto simp: case_prod_beta min_def max_def)
  show ?thesis by (simp add: normalize_def f m)
qed

lemma sweep_id:
  "separated ((cur_s, cur_e) # ivs) \<Longrightarrow> sweep cur_s cur_e ivs = (cur_s, cur_e) # ivs"
  by (induction cur_s cur_e ivs rule: sweep.induct) auto

lemma merge_separated_id: "separated ivs \<Longrightarrow> merge_intervals ivs = Inr ivs"
proof (cases ivs)
  case Nil
  then show ?thesis by (simp add: merge_intervals_def)
next
  case (Cons p rest)
  assume sep: "separated ivs"
  obtain a b where p: "p = (a, b)" by (cases p)
  have "sort_key fst (normalize ivs) = ivs"
    using sep by (simp add: normalize_id separated_long sort_key_id_if_sorted separated_sorted)
  then show ?thesis
    using sep Cons p by (simp add: merge_intervals_def sweep_id)
qed

lemma normalize_long: "\<forall>p \<in> set (normalize ivs). snd p - fst p > EPS"
  by (auto simp: normalize_def min_def max_def)

lemma merge_result_separated:
  assumes "merge_intervals ivs = Inr merged"
  shows "separated merged"
proof (cases "ivs = []")
  case True
  with assms show ?thesis by (simp add: merge_intervals_def)
next
  case False
  let ?srt = "sort_key fst (normalize ivs)"
  from assms False obtain cur_s cur_e rest
    where srt: "?srt = (cur_s, cur_e) # rest" and m: "merged = sweep cur_s cur_e rest"
    by (auto simp: merge_intervals_def split: list.splits)
  have "\<forall>p \<in> set ?srt. snd p - fst p > EPS"
    using normalize_long by simp
  then have "cur_e - cur_s > EPS" "\<forall>p \<in> set rest. snd p - fst p > EPS"
    using srt by auto
  then show ?thesis
    unfolding m by (rule sweep_separated)
qed



text \<open>
  C3. Merge idempotence: applying the interval merger to its own result gives the same
  result as applying it once; when the first application raises, the composite raises
  the same error.
\<close>

theorem merge_idempotent: "merge_twice S = merge_intervals S"
proof (cases "merge_intervals S")
  case (Inl err)
  then show ?thesis by (simp add: merge_twice_def)
next
  case (Inr merged)
  then have "merge_intervals merged = Inr merged"
    by (intro merge_separated_id merge_result_separated)
  with Inr show ?thesis by (simp add: merge_twice_def)
qed

text \<open>
  A direct call with a non-empty list whose pairs are all no longer than \<open>EPS\<close>: the
  filter of line 60 leaves the empty list and line 64 raises \<^verbatim>\<open>IndexError\<close>.
\<close>

lemma merge_degenerate_raises: "merge_intervals [(1, 1)] = Inl IndexError"
  by (simp add: merge_intervals_def normalize_def EPS_def)

section \<open>Properties of the keep-set builder\<close>

lemma EPS_pos: "0 < EPS"
  by (simp add: EPS_def)

lemma cuts_within_le: "cuts_within lo cuts duration \<Longrightarrow> lo \<le> duration"
  by (induction lo cuts duration rule: cuts_within.induct) auto

lemma cuts_within_mem:
  "cuts_within lo cuts duration \<Longrightarrow> (s, e) \<in> set cuts \<Longrightarrow> lo \<le> s \<and> s \<le> e \<and> e \<le> duration"
proof (induction lo cuts duration rule: cuts_within.induct)
  case (2 lo s' e' cuts duration)
  then show ?case using cuts_within_le[of e' cuts duration] by fastforce
qed simp

lemma keeps_from_sum:
  "cuts_within cur cuts duration \<Longrightarrow>
     total_len (keeps_from cur cuts duration) + total_len cuts \<le> duration - cur \<and>
     duration - cur - (total_len (keeps_from cur cuts duration) + total_len cuts)
       \<le> EPS * (real (length cuts) + 1)"
proof (induction cuts arbitrary: cur)
  case Nil
  then show ?case using EPS_pos by (simp add: total_len_def)
next
  case (Cons p cuts)
  obtain s e where p: "p = (s, e)" by (cases p)
  from Cons.prems p have le: "cur \<le> s" "s \<le> e" and w: "cuts_within e cuts duration"
    by simp_all
  have m: "max cur e = e" using le by simp
  note IH = Cons.IH[OF w]
  show ?case
  proof (cases "s - cur > EPS")
    case True
    then show ?thesis using IH p m EPS_pos
      by (simp add: total_len_def algebra_simps)
  next
    case False
    then show ?thesis using IH p m le EPS_pos
      by (simp add: total_len_def algebra_simps)
  qed
qed

lemma keeps_from_mem:
  "cuts_within cur cuts duration \<Longrightarrow> (ks, ke) \<in> set (keeps_from cur cuts duration) \<Longrightarrow>
     cur \<le> ks \<and> ks + EPS < ke \<and> ke \<le> duration \<and>
     (\<forall>(cs, ce) \<in> set cuts. ke \<le> cs \<or> ce \<le> ks)"
proof (induction cuts arbitrary: cur)
  case Nil
  then show ?case by (auto split: if_splits)
next
  case (Cons p cuts)
  obtain s e where p: "p = (s, e)" by (cases p)
  from Cons.prems(1) p have le: "cur \<le> s" "s \<le> e" and w: "cuts_within e cuts duration"
    by simp_all
  have m: "max cur e = e" using le by simp
  have later: "\<forall>(cs, ce) \<in> set cuts. e \<le> cs \<and> ce \<le> duration"
    using cuts_within_mem[OF w] by auto
  have ed: "e \<le> duration" using cuts_within_le[OF w] .
  consider (first) "s - cur > EPS" "(ks, ke) = (cur, s)"
    | (rest) "(ks, ke) \<in> set (keeps_from e cuts duration)"
    using Cons.prems(2) p m by (auto split: if_splits)
  then show ?case
  proof cases
    case first
    then show ?thesis using le later ed p by fastforce
  next
    case rest
    from Cons.IH[OF w rest] show ?thesis using le p by auto
  qed
qed

lemma keeps_from_covered:
  "cuts_within cur cuts duration \<Longrightarrow> cur \<le> x \<Longrightarrow> x \<le> duration \<Longrightarrow>
     cuts \<noteq> [] \<or> duration - cur > EPS \<Longrightarrow>
     \<exists>(s, e) \<in> set (keeps_from cur cuts duration) \<union> set cuts. s - EPS \<le> x \<and> x \<le> e + EPS"
proof (induction cuts arbitrary: cur)
  case Nil
  then show ?case using EPS_pos by auto
next
  case (Cons p cuts)
  obtain s e where p: "p = (s, e)" by (cases p)
  from Cons.prems(1) p have le: "cur \<le> s" "s \<le> e" and w: "cuts_within e cuts duration"
    by simp_all
  have m: "max cur e = e" using le by simp
  show ?case
  proof (cases "x \<le> e")
    case True
    show ?thesis
    proof (cases "s - cur > EPS \<and> x < s")
      case True
      then have "(cur, s) \<in> set (keeps_from cur (p # cuts) duration)" using p by simp
      moreover have "cur - EPS \<le> x \<and> x \<le> s + EPS" using True Cons.prems(2) EPS_pos by simp
      ultimately show ?thesis by blast
    next
      case False
      then have "s - EPS \<le> x \<and> x \<le> e + EPS"
        using \<open>x \<le> e\<close> Cons.prems(2) EPS_pos by auto
      then show ?thesis using p by auto
    qed
  next
    case False
    show ?thesis
    proof (cases "cuts \<noteq> [] \<or> duration - e > EPS")
      case True
      from Cons.IH[OF w _ Cons.prems(3) True] False
      obtain a b where "(a, b) \<in> set (keeps_from e cuts duration) \<union> set cuts"
        "a - EPS \<le> x \<and> x \<le> b + EPS" by auto
      then show ?thesis using p m by (auto split: if_splits)
    next
      case False
      then have "s - EPS \<le> x \<and> x \<le> e + EPS"
        using \<open>\<not> x \<le> e\<close> le Cons.prems(3) EPS_pos by auto
      then show ?thesis using p by auto
    qed
  qed
qed

text \<open>
  C1 (as the code has it). For every duration \<open>D > 0\<close> and every cut-set \<open>C\<close> that is
  sorted, pairwise disjoint and contained in \<open>[0, D]\<close>: no keep interval overlaps a cut
  interval; every keep interval is longer than \<open>EPS\<close> and lies in \<open>[0, D]\<close>; every
  point of \<open>[0, D]\<close> lies within \<open>EPS\<close> of a keep or cut interval (when there is a cut
  or \<open>D > EPS\<close>); and the keep lengths plus the cut lengths never exceed \<open>D\<close> and fall
  short of it by at most \<open>EPS \<times> (|C| + 1)\<close>, one dropped gap before each cut and one
  after the last. The scenario: duration 100 with cuts \<open>[(0,2),(1,3),(50,50.5)]\<close>
  merges to \<open>[(0,3),(50,50.5)]\<close> and keeps \<open>[(3,50),(50.5,100)]\<close>.
\<close>

theorem keep_cut_partition:
  assumes "0 < D" and "cuts_within 0 C D"
  shows "no_overlap (build_keeps C D) C \<and>
         list_all (\<lambda>(ks, ke). 0 \<le> ks \<and> ks + EPS < ke \<and> ke \<le> D) (build_keeps C D) \<and>
         (\<forall>x. 0 \<le> x \<and> x \<le> D \<and> (C \<noteq> [] \<or> EPS < D) \<longrightarrow> covered EPS (build_keeps C D @ C) x) \<and>
         total_len (build_keeps C D) + total_len C \<le> D \<and>
         D - (total_len (build_keeps C D) + total_len C) \<le> EPS * (real (length C) + 1) \<and>
         merge_intervals [(0, 2), (1, 3), (50, 50.5)] = Inr [(0, 3), (50, 50.5)] \<and>
         build_keeps [(0, 3), (50, 50.5)] 100 = [(3, 50), (50.5, 100)]"
proof -
  have mem: "\<And>ks ke. (ks, ke) \<in> set (build_keeps C D) \<Longrightarrow>
      0 \<le> ks \<and> ks + EPS < ke \<and> ke \<le> D \<and> (\<forall>(cs, ce) \<in> set C. ke \<le> cs \<or> ce \<le> ks)"
    using keeps_from_mem[OF assms(2)] by (simp add: build_keeps_def)
  have a: "no_overlap (build_keeps C D) C"
    unfolding no_overlap_def list_all_iff using mem by fastforce
  have b: "list_all (\<lambda>(ks, ke). 0 \<le> ks \<and> ks + EPS < ke \<and> ke \<le> D) (build_keeps C D)"
    unfolding list_all_iff using mem by fastforce
  have c: "\<forall>x. 0 \<le> x \<and> x \<le> D \<and> (C \<noteq> [] \<or> EPS < D) \<longrightarrow> covered EPS (build_keeps C D @ C) x"
  proof (intro allI impI)
    fix x assume x: "0 \<le> x \<and> x \<le> D \<and> (C \<noteq> [] \<or> EPS < D)"
    then have "C \<noteq> [] \<or> D - 0 > EPS" by simp
    from keeps_from_covered[OF assms(2) _ _ this, of x] x
    show "covered EPS (build_keeps C D @ C) x"
      by (simp add: covered_def build_keeps_def list_ex_iff)
  qed
  have d: "total_len (build_keeps C D) + total_len C \<le> D"
    and e: "D - (total_len (build_keeps C D) + total_len C) \<le> EPS * (real (length C) + 1)"
    using keeps_from_sum[OF assms(2)] by (simp_all add: build_keeps_def)
  have f: "merge_intervals [(0, 2), (1, 3), (50, 50.5)] = Inr [(0, 3), (50, 50.5)]"
    by (simp add: merge_intervals_def normalize_def EPS_def)
  have g: "build_keeps [(0, 3), (50, 50.5)] 100 = [(3, 50), (50.5, 100)]"
    by (simp add: build_keeps_def EPS_def)
  from a b c d e f g show ?thesis by blast
qed

theorem keep_cut_partition_witness:
  "(0::real) < 100 \<and> cuts_within 0 [(0, 3), (50, 50.5)] 100 \<and>
   no_overlap (build_keeps [(0, 3), (50, 50.5)] 100) [(0, 3), (50, 50.5)] \<and>
   total_len (build_keeps [(0, 3), (50, 50.5)] 100) + total_len [(0, 3), (50, 50.5)] \<le> 100 \<and>
   100 - (total_len (build_keeps [(0, 3), (50, 50.5)] 100) + total_len [(0, 3), (50, 50.5)])
     \<le> EPS * (real (length [(0::real, 3::real), (50, 50.5)]) + 1)"
proof -
  have h1: "(0::real) < 100" by simp
  have h2: "cuts_within 0 [(0, 3), (50, 50.5)] 100" by simp
  from keep_cut_partition[OF h1 h2] h1 h2 show ?thesis by blast
qed

text \<open>
  The bound \<open>EPS \<times> |C|\<close> and the exact cover fail: the single merged cut
  \<open>(0.0000008, 99.9999992)\<close> of a recording of 100 seconds leaves a gap of
  \<open>0.0000008\<close> on each side, neither is kept, and the lengths add up to
  \<open>100 - 0.0000016\<close>.
\<close>

theorem keep_cut_partition_counterexample:
  "cuts_within 0 [(0.0000008, 99.9999992)] 100 \<and>
   merge_intervals [(0.0000008, 99.9999992)] = Inr [(0.0000008, 99.9999992)] \<and>
   build_keeps [(0.0000008, 99.9999992)] 100 = [] \<and>
   \<not> covered 0 (build_keeps [(0.0000008, 99.9999992)] 100 @ [(0.0000008, 99.9999992)]) 0 \<and>
   \<not> \<bar>100 - (total_len (build_keeps [(0.0000008, 99.9999992)] 100)
                 + total_len [(0.0000008, 99.9999992)])\<bar>
       \<le> EPS * real (length [(0.0000008::real, 99.9999992::real)])"
  by (simp add: merge_intervals_def normalize_def build_keeps_def total_len_def
      covered_def EPS_def)

section \<open>The contract of the interval merger\<close>











section \<open>Fatal conditions\<close>

lemma nonpositive_duration_raises:
  "get_or (vid_duration data) 0 \<le> 0 \<Longrightarrow>
     compute_cut_and_keep_intervals data = Inl (ValueError hardcut_duration_message)"
  by (simp add: compute_cut_and_keep_intervals_def)

text \<open>
  C9 (as the code has it). A duration \<open>\<le> 0\<close> makes \<^verbatim>\<open>compute_cut_and_keep_intervals\<close>
  raise a \<^verbatim>\<open>ValueError\<close> with a fixed message, which \<^verbatim>\<open>main\<close> lets through; an empty
  keep-set is no error: the function returns it, and \<^verbatim>\<open>main\<close> returns normally after a
  message, without going on.
\<close>

theorem fatal_conditions:
  "(get_or (vid_duration data) 0 \<le> 0 \<longrightarrow>
      compute_cut_and_keep_intervals data = Inl (ValueError hardcut_duration_message) \<and>
      main_intervals data = Inl (ValueError hardcut_duration_message)) \<and>
   (compute_cut_and_keep_intervals data = Inr (cuts, [], duration) \<longrightarrow>
      main_intervals data = Inr ReturnedNoKeeps)"
  by (simp add: nonpositive_duration_raises main_intervals_def)

theorem fatal_conditions_witness:
  "get_or (vid_duration \<lparr>vid_duration = Some (- 5), vid_fps = None, doc_shots = []\<rparr>) 0 \<le> 0 \<and>
   main_intervals \<lparr>vid_duration = Some (- 5), vid_fps = None, doc_shots = []\<rparr>
     = Inl (ValueError hardcut_duration_message) \<and>
   compute_cut_and_keep_intervals \<lparr>vid_duration = Some 3, vid_fps = None, doc_shots = []\<rparr>
     = Inr ([(0, 3)], [], 3) \<and>
   main_intervals \<lparr>vid_duration = Some 3, vid_fps = None, doc_shots = []\<rparr> = Inr ReturnedNoKeeps"
proof -
  let ?neg = "\<lparr>vid_duration = Some (- 5), vid_fps = None, doc_shots = []\<rparr>"
  let ?short = "\<lparr>vid_duration = Some 3, vid_fps = None, doc_shots = []\<rparr>"
  have h1: "get_or (vid_duration ?neg) 0 \<le> 0" by (simp add: get_or_def)
  have h2: "compute_cut_and_keep_intervals ?short = Inr ([(0, 3)], [], 3)"
    by (simp add: compute_cut_and_keep_intervals_def get_or_def collect_shots_def
        collect_segments_def first_shots_def add_interval_def TRIM_HEAD_SEC_def
        TRIM_TAIL_SEC_def merge_intervals_def normalize_def build_keeps_def EPS_def)
  from fatal_conditions[of ?neg] fatal_conditions[of ?short "[(0, 3)]" 3] h1 h2
  show ?thesis by blast
qed

text \<open>
  A recording of 3 seconds is cut whole: the result is an empty keep-set and a normal
  return of \<^verbatim>\<open>main\<close>, not an error. The error for the duration \<open>-5\<close> is the error for
  the duration \<open>-7\<close>: it does not carry the value.
\<close>

theorem fatal_conditions_counterexample:
  "compute_cut_and_keep_intervals \<lparr>vid_duration = Some 3, vid_fps = None, doc_shots = []\<rparr>
     = Inr ([(0, 3)], [], 3) \<and>
   main_intervals \<lparr>vid_duration = Some 3, vid_fps = None, doc_shots = []\<rparr> = Inr ReturnedNoKeeps \<and>
   compute_cut_and_keep_intervals \<lparr>vid_duration = Some (- 5), vid_fps = None, doc_shots = []\<rparr>
     = compute_cut_and_keep_intervals \<lparr>vid_duration = Some (- 7), vid_fps = None, doc_shots = []\<rparr>"
  by (simp add: main_intervals_def compute_cut_and_keep_intervals_def get_or_def collect_shots_def
      collect_segments_def first_shots_def add_interval_def TRIM_HEAD_SEC_def
      TRIM_TAIL_SEC_def merge_intervals_def normalize_def build_keeps_def EPS_def)

section \<open>Properties of the window partitioners\<close>

text \<open>
  C10. For a document of positive duration whose shot list is empty,
  \<^verbatim>\<open>compute_bgm_groups\<close> returns the single window \<open>(0, duration)\<close>, whatever the
  minimum window length.
\<close>

theorem no_shots_single_window:
  "0 < get_or (vid_duration data) 0 \<Longrightarrow> collect_shots data = [] \<Longrightarrow>
     compute_bgm_groups data min_bgm_sec = Inr [(0, get_or (vid_duration data) 0)]"
  by (simp add: compute_bgm_groups_def)

theorem no_shots_single_window_witness:
  "0 < get_or (vid_duration \<lparr>vid_duration = Some 5, vid_fps = None, doc_shots = [(''shot_1'', [])]\<rparr>) 0 \<and>
   collect_shots \<lparr>vid_duration = Some 5, vid_fps = None, doc_shots = [(''shot_1'', [])]\<rparr> = [] \<and>
   compute_bgm_groups \<lparr>vid_duration = Some 5, vid_fps = None, doc_shots = [(''shot_1'', [])]\<rparr>
     MIN_BGM_SEC = Inr [(0, 5)] \<and> (5::real) < MIN_BGM_SEC"
proof -
  let ?d = "\<lparr>vid_duration = Some 5, vid_fps = None, doc_shots = [(''shot_1'', [])]\<rparr>"
  have h1: "0 < get_or (vid_duration ?d) 0" by (simp add: get_or_def)
  have h2: "collect_shots ?d = []" by (simp add: collect_shots_def first_shots_def)
  from no_shots_single_window[OF h1 h2, of MIN_BGM_SEC] h1 h2
  show ?thesis by (simp add: get_or_def MIN_BGM_SEC_def)
qed

section \<open>Attaching segments to shots\<close>

lemma first_containing_Some:
  "spec_first_containing shots mid = Some i \<Longrightarrow>
     i < length shots \<and> contains_mid (shots ! i) mid \<and> (\<forall>j < i. \<not> contains_mid (shots ! j) mid)"
proof (induction shots arbitrary: i)
  case Nil
  then show ?case by simp
next
  case (Cons shot shots)
  show ?case
  proof (cases "contains_mid shot mid")
    case True
    with Cons.prems show ?thesis by simp
  next
    case False
    with Cons.prems obtain k where k: "spec_first_containing shots mid = Some k" "i = Suc k"
      by auto
    from Cons.IH[OF k(1)] False k(2) show ?thesis
      by (auto simp: nth_Cons split: nat.splits)
  qed
qed

lemma first_containing_None:
  "spec_first_containing shots mid = None \<Longrightarrow> \<forall>j < length shots. \<not> contains_mid (shots ! j) mid"
proof (induction shots)
  case Nil
  then show ?case by simp
next
  case (Cons shot shots)
  then show ?case by (auto simp: nth_Cons split: if_splits nat.splits)
qed

lemma attach_first_eq:
  "attach_first mid seg shots =
     map_option (\<lambda>i. shots[i := append_segment (shots ! i) seg]) (spec_first_containing shots mid)"
  by (induction shots) (auto simp: option.map_comp comp_def split: option.splits)

lemma butlast_last_update:
  "shots \<noteq> [] \<Longrightarrow> butlast shots @ [f (last shots)] = shots[length shots - 1 := f (shots ! (length shots - 1))]"
  by (induction shots rule: rev_induct) (auto simp: nth_append)

lemma spec_target_less: "shots \<noteq> [] \<Longrightarrow> spec_target shots mid < length shots"
  by (auto simp: spec_target_def dest: first_containing_Some split: option.splits)

lemma attach_segment_eq:
  "shots \<noteq> [] \<Longrightarrow>
     attach_segment shots seg =
       Inr (shots[spec_target shots (seg_mid seg) :=
                    append_segment (shots ! spec_target shots (seg_mid seg)) seg])"
  using butlast_last_update[of shots "\<lambda>s. append_segment s seg"]
  by (simp add: attach_segment_def attach_first_eq spec_target_def split: option.splits)

lemma first_containing_cong:
  "map (\<lambda>s. (ns_start s, ns_end s)) shots' = map (\<lambda>s. (ns_start s, ns_end s)) shots \<Longrightarrow>
     spec_first_containing shots' mid = spec_first_containing shots mid"
proof (induction shots arbitrary: shots')
  case Nil
  then show ?case by simp
next
  case (Cons shot shots)
  from Cons.prems obtain a as where sh: "shots' = a # as" by (cases shots') auto
  with Cons.prems have hd: "ns_start a = ns_start shot" "ns_end a = ns_end shot"
    and tl: "map (\<lambda>s. (ns_start s, ns_end s)) as = map (\<lambda>s. (ns_start s, ns_end s)) shots"
    by simp_all
  from Cons.IH[OF tl] hd sh show ?case by (simp add: contains_mid_def)
qed

lemma append_segment_simps:
  "ns_segments (append_segment shot seg) = ns_segments shot @ [seg]"
  "(append_segment shot seg)\<lparr>ns_segments := segs\<rparr> = shot\<lparr>ns_segments := segs\<rparr>"
  by (simp_all add: append_segment_def)

lemma bounds_update:
  "map (\<lambda>s. (ns_start s, ns_end s)) (shots[i := append_segment (shots ! i) seg])
     = map (\<lambda>s. (ns_start s, ns_end s)) shots"
proof (cases "i < length shots")
  case True
  have "map (\<lambda>s. (ns_start s, ns_end s)) (shots[i := append_segment (shots ! i) seg])
        = (map (\<lambda>s. (ns_start s, ns_end s)) shots)[i := (ns_start (shots ! i), ns_end (shots ! i))]"
    by (simp only: map_update) (simp add: append_segment_def)
  also have "(ns_start (shots ! i), ns_end (shots ! i)) = map (\<lambda>s. (ns_start s, ns_end s)) shots ! i"
    using True by simp
  also have "(map (\<lambda>s. (ns_start s, ns_end s)) shots)[i := map (\<lambda>s. (ns_start s, ns_end s)) shots ! i]
        = map (\<lambda>s. (ns_start s, ns_end s)) shots"
    by (rule list_update_id)
  finally show ?thesis .
next
  case False
  then have "shots[i := append_segment (shots ! i) seg] = shots"
    by (intro list_update_beyond) simp
  then show ?thesis by simp
qed

lemma spec_target_update:
  "spec_target (shots[i := append_segment (shots ! i) seg]) mid = spec_target shots mid"
  using first_containing_cong[OF bounds_update, of shots i seg mid]
  by (simp add: spec_target_def split: option.splits)

lemma attach_all_eq:
  "shots \<noteq> [] \<Longrightarrow>
     \<exists>shots'. attach_all shots segs = Inr shots' \<and> length shots' = length shots \<and>
       (\<forall>i < length shots. shots' ! i =
          (shots ! i)\<lparr>ns_segments := ns_segments (shots ! i)
             @ filter (\<lambda>seg. spec_target shots (seg_mid seg) = i) segs\<rparr>)"
proof (induction segs arbitrary: shots)
  case Nil
  then show ?case by simp
next
  case (Cons seg segs)
  let ?t = "spec_target shots (seg_mid seg)"
  let ?shots1 = "shots[?t := append_segment (shots ! ?t) seg]"
  have t: "?t < length shots" using Cons.prems by (rule spec_target_less)
  have ne: "?shots1 \<noteq> []" using Cons.prems by simp
  from Cons.IH[OF ne] obtain shots' where
    r: "attach_all ?shots1 segs = Inr shots'" and l: "length shots' = length shots" and
    el: "\<forall>i < length shots. shots' ! i =
          (?shots1 ! i)\<lparr>ns_segments := ns_segments (?shots1 ! i)
             @ filter (\<lambda>sg. spec_target ?shots1 (seg_mid sg) = i) segs\<rparr>"
    by auto
  have "attach_all shots (seg # segs) = Inr shots'"
    using r by (simp add: attach_segment_eq[OF Cons.prems])
  moreover have "\<forall>i < length shots. shots' ! i =
          (shots ! i)\<lparr>ns_segments := ns_segments (shots ! i)
             @ filter (\<lambda>sg. spec_target shots (seg_mid sg) = i) (seg # segs)\<rparr>"
  proof (intro allI impI)
    fix i assume i: "i < length shots"
    show "shots' ! i = (shots ! i)\<lparr>ns_segments := ns_segments (shots ! i)
             @ filter (\<lambda>sg. spec_target shots (seg_mid sg) = i) (seg # segs)\<rparr>"
      using el i t by (cases "i = ?t") (simp_all add: spec_target_update append_segment_simps)
  qed
  ultimately show ?case using l by blast
qed

text \<open>
  C7. For a non-empty list of new shots, a segment is attached to the first shot whose
  interval contains the midpoint of the segment, with a tolerance of \<open>10\<^sup>-\<^sup>6\<close> and both
  ends included, and to the last shot when no interval contains it; the other shots
  stay as they are. After all segments, every shot holds, behind the segments it had,
  exactly the segments whose target it is, in their order.
\<close>

theorem segment_attachment:
  assumes "shots \<noteq> []"
  shows "spec_target shots (seg_mid seg) < length shots \<and>
         ((contains_mid (shots ! spec_target shots (seg_mid seg)) (seg_mid seg) \<and>
           (\<forall>j < spec_target shots (seg_mid seg). \<not> contains_mid (shots ! j) (seg_mid seg))) \<or>
          ((\<forall>j < length shots. \<not> contains_mid (shots ! j) (seg_mid seg)) \<and>
           spec_target shots (seg_mid seg) = length shots - 1)) \<and>
         attach_segment shots seg =
           Inr (shots[spec_target shots (seg_mid seg) :=
                        append_segment (shots ! spec_target shots (seg_mid seg)) seg]) \<and>
         (\<exists>shots'. attach_all shots segs = Inr shots' \<and> length shots' = length shots \<and>
            (\<forall>i < length shots. shots' ! i =
               (shots ! i)\<lparr>ns_segments := ns_segments (shots ! i)
                  @ filter (\<lambda>sg. spec_target shots (seg_mid sg) = i) segs\<rparr>))"
proof -
  have "(contains_mid (shots ! spec_target shots (seg_mid seg)) (seg_mid seg) \<and>
           (\<forall>j < spec_target shots (seg_mid seg). \<not> contains_mid (shots ! j) (seg_mid seg))) \<or>
          ((\<forall>j < length shots. \<not> contains_mid (shots ! j) (seg_mid seg)) \<and>
           spec_target shots (seg_mid seg) = length shots - 1)"
  proof (cases "spec_first_containing shots (seg_mid seg)")
    case None
    then show ?thesis using first_containing_None[OF None] by (simp add: spec_target_def)
  next
    case (Some i)
    then show ?thesis using first_containing_Some[OF Some] by (simp add: spec_target_def)
  qed
  with spec_target_less[OF assms] attach_segment_eq[OF assms] attach_all_eq[OF assms]
  show ?thesis by blast
qed

theorem segment_attachment_witness:
  "[\<lparr>ns_start = 0, ns_end = 5, ns_start_frame = 0, ns_end_frame = 150,
      ns_probability = 1, ns_segments = []\<rparr>,
    \<lparr>ns_start = 5, ns_end = 10, ns_start_frame = 150, ns_end_frame = 300,
      ns_probability = 1, ns_segments = []\<rparr>] \<noteq> [] \<and>
   attach_segment
     [\<lparr>ns_start = 0, ns_end = 5, ns_start_frame = 0, ns_end_frame = 150,
        ns_probability = 1, ns_segments = []\<rparr>,
      \<lparr>ns_start = 5, ns_end = 10, ns_start_frame = 150, ns_end_frame = 300,
        ns_probability = 1, ns_segments = []\<rparr>]
     \<lparr>seg_text = ''late'', orig_start = 30, orig_end = 34, seg_start = 18, seg_end = 22\<rparr>
   = Inr [\<lparr>ns_start = 0, ns_end = 5, ns_start_frame = 0, ns_end_frame = 150,
            ns_probability = 1, ns_segments = []\<rparr>,
          \<lparr>ns_start = 5, ns_end = 10, ns_start_frame = 150, ns_end_frame = 300,
            ns_probability = 1,
            ns_segments = [\<lparr>seg_text = ''late'', orig_start = 30, orig_end = 34,
                             seg_start = 18, seg_end = 22\<rparr>]\<rparr>]"
proof -
  let ?shots = "[\<lparr>ns_start = 0, ns_end = 5, ns_start_frame = 0, ns_end_frame = 150,
      ns_probability = 1, ns_segments = []\<rparr>,
    \<lparr>ns_start = 5, ns_end = 10, ns_start_frame = 150, ns_end_frame = 300,
      ns_probability = 1, ns_segments = []\<rparr>]"
  let ?seg = "\<lparr>seg_text = ''late'', orig_start = 30, orig_end = 34, seg_start = 18, seg_end = 22\<rparr>"
  have h: "?shots \<noteq> []" by simp
  have t: "spec_target ?shots (seg_mid ?seg) = 1"
    by (simp add: spec_target_def seg_mid_def contains_mid_def)
  from segment_attachment[OF h, of ?seg "[]"] t h
  show ?thesis by (simp add: append_segment_def)
qed

section \<open>Properties of the shot reconstructor\<close>

lemma overlap_guard:
  "(if overlap (s0, e0) (ks, ke) > EPS then overlap (s0, e0) (ks, ke) else 0)
     = (if min e0 ke - max s0 ks > EPS then min e0 ke - max s0 ks else 0)"
proof -
  define d where "d = min e0 ke - max s0 ks"
  have pos: "0 < EPS" by (simp add: EPS_def)
  have A: "overlap (s0, e0) (ks, ke) = max 0 d" by (simp add: overlap_def d_def)
  have B: "(if max 0 d > EPS then max 0 d else 0) = (if d > EPS then d else 0)"
    using pos by (auto simp: max_def)
  show ?thesis unfolding A B unfolding d_def ..
qed

lemma kept_len_from_sum:
  "kept_len_from s0 e0 kept keeps =
     kept + sum_list (map (\<lambda>k. if overlap (s0, e0) k > EPS then overlap (s0, e0) k else 0) keeps)"
proof (induction keeps arbitrary: kept)
  case Nil
  then show ?case by simp
next
  case (Cons k keeps)
  obtain ks ke where k: "k = (ks, ke)" by (cases k)
  show ?case
    unfolding k list.map sum_list.Cons overlap_guard kept_len_from.simps Let_def Cons.IH
    by simp
qed

lemma new_shots_from_length:
  "length (new_shots_from fps cur infos) = length (survivors infos)"
  by (induction infos arbitrary: cur) (simp_all add: survivors_def Let_def)

lemma new_shots_from_nth:
  "j < length (survivors infos) \<Longrightarrow>
     new_shots_from fps cur infos ! j =
       \<lparr>ns_start = round_nd (cur + cursor_at infos j) 3,
        ns_end = round_nd (cur + cursor_at infos j + si_kept_len (survivors infos ! j)) 3,
        ns_start_frame = py_round ((cur + cursor_at infos j) * fps),
        ns_end_frame = py_round ((cur + cursor_at infos j + si_kept_len (survivors infos ! j)) * fps),
        ns_probability = si_probability (survivors infos ! j),
        ns_segments = []\<rparr>"
proof (induction infos arbitrary: cur j)
  case Nil
  then show ?case by (simp add: survivors_def)
next
  case (Cons info infos)
  show ?case
  proof (cases "si_kept_len info \<le> EPS")
    case True
    then have "survivors (info # infos) = survivors infos" by (simp add: survivors_def)
    with Cons True show ?thesis by (simp add: cursor_at_def)
  next
    case False
    then have sv: "survivors (info # infos) = info # survivors infos" by (simp add: survivors_def)
    show ?thesis
    proof (cases j)
      case 0
      with False sv show ?thesis by (simp add: cursor_at_def Let_def)
    next
      case (Suc k)
      with Cons.prems sv have k: "k < length (survivors infos)" by simp
      from Cons.IH[OF k, of "cur + si_kept_len info"] False sv Suc
      show ?thesis by (simp add: cursor_at_def Let_def add.assoc)
    qed
  qed
qed

lemma kept_len_spec:
  assumes "\<forall>k \<in> set keeps. overlap (s0, e0) k = 0 \<or> overlap (s0, e0) k > EPS"
  shows "kept_len_from s0 e0 0 keeps = spec_kept_length (s0, e0) keeps"
proof -
  have "map (\<lambda>k. if overlap (s0, e0) k > EPS then overlap (s0, e0) k else 0) keeps
        = map (overlap (s0, e0)) keeps"
    using assms by (intro map_cong) auto
  then have "sum_list (map (\<lambda>k. if overlap (s0, e0) k > EPS then overlap (s0, e0) k else 0) keeps)
        = sum_list (map (overlap (s0, e0)) keeps)"
    by (rule arg_cong)
  then show ?thesis unfolding kept_len_from_sum spec_kept_length_def by linarith
qed

text \<open>
  C4 (as the code has it). The kept length of a shot is the sum of its overlaps with
  the keep intervals that exceed \<open>EPS\<close>, which is the sum of all overlaps when no
  overlap lies in \<open>(0, EPS]\<close>; the probability is carried over. The shots with a kept
  length above \<open>EPS\<close> survive, in order; the \<open>j\<close>-th survivor gets the interval from
  the cursor to the cursor plus its kept length, both rounded to three decimals, the
  frames \<^verbatim>\<open>round(time * fps)\<close> and its probability, the cursor being the sum of the
  kept lengths of the survivors before it. When no shot survives, the result is the
  single shot from 0 to the logical duration. The scenario: shots
  \<open>[(0,10),(10,20),(20,100)]\<close> with the keep-set \<open>[(0,5),(15,100)]\<close> have the kept
  lengths 5, 5, 80 and become \<open>[(0,5),(5,10),(10,90)]\<close>.
\<close>

theorem shot_reconstruction:
  "map si_kept_len (shot_infos orig_shots keeps) =
     map (\<lambda>shot. sum_list (map (\<lambda>k.
            if overlap (get_or (rs_start shot) 0, get_or (rs_end shot) 0) k > EPS
            then overlap (get_or (rs_start shot) 0, get_or (rs_end shot) 0) k else 0) keeps))
         orig_shots \<and>
   ((\<forall>k \<in> set keeps. overlap (s0, e0) k = 0 \<or> overlap (s0, e0) k > EPS) \<longrightarrow>
      kept_len_from s0 e0 0 keeps = spec_kept_length (s0, e0) keeps) \<and>
   map si_probability (shot_infos orig_shots keeps) =
     map (\<lambda>shot. get_or (rs_probability shot) 1) orig_shots \<and>
   length (new_shots_from fps 0 infos) = length (survivors infos) \<and>
   (\<forall>j < length (survivors infos).
      new_shots_from fps 0 infos ! j =
        \<lparr>ns_start = round_nd (cursor_at infos j) 3,
         ns_end = round_nd (cursor_at infos j + si_kept_len (survivors infos ! j)) 3,
         ns_start_frame = py_round (cursor_at infos j * fps),
         ns_end_frame = py_round ((cursor_at infos j + si_kept_len (survivors infos ! j)) * fps),
         ns_probability = si_probability (survivors infos ! j),
         ns_segments = []\<rparr>) \<and>
   new_shots_list fps logical_duration infos =
     (if survivors infos = []
      then [\<lparr>ns_start = 0, ns_end = round_nd logical_duration 3,
             ns_start_frame = 0, ns_end_frame = py_round (logical_duration * fps),
             ns_probability = 1, ns_segments = []\<rparr>]
      else new_shots_from fps 0 infos) \<and>
   map si_kept_len (shot_infos
     [\<lparr>rs_start = Some 0, rs_end = Some 10, rs_probability = Some 0.9, rs_segments = []\<rparr>,
      \<lparr>rs_start = Some 10, rs_end = Some 20, rs_probability = Some 0.8, rs_segments = []\<rparr>,
      \<lparr>rs_start = Some 20, rs_end = Some 100, rs_probability = Some 0.7, rs_segments = []\<rparr>]
     [(0, 5), (15, 100)]) = [5, 5, 80] \<and>
   map (\<lambda>s. (ns_start s, ns_end s, ns_start_frame s, ns_end_frame s, ns_probability s))
     (new_shots_list 30 90 (shot_infos
       [\<lparr>rs_start = Some 0, rs_end = Some 10, rs_probability = Some 0.9, rs_segments = []\<rparr>,
        \<lparr>rs_start = Some 10, rs_end = Some 20, rs_probability = Some 0.8, rs_segments = []\<rparr>,
        \<lparr>rs_start = Some 20, rs_end = Some 100, rs_probability = Some 0.7, rs_segments = []\<rparr>]
       [(0, 5), (15, 100)]))
     = [(0, 5, 0, 150, 0.9), (5, 10, 150, 300, 0.8), (10, 90, 300, 2700, 0.7)]"
proof -
  have a: "map si_kept_len (shot_infos orig_shots keeps) =
     map (\<lambda>shot. sum_list (map (\<lambda>k.
            if overlap (get_or (rs_start shot) 0, get_or (rs_end shot) 0) k > EPS
            then overlap (get_or (rs_start shot) 0, get_or (rs_end shot) 0) k else 0) keeps))
         orig_shots"
    by (simp add: shot_infos_def Let_def kept_len_from_sum comp_def)
  have b: "(\<forall>k \<in> set keeps. overlap (s0, e0) k = 0 \<or> overlap (s0, e0) k > EPS) \<longrightarrow>
      kept_len_from s0 e0 0 keeps = spec_kept_length (s0, e0) keeps"
    using kept_len_spec by blast
  have c: "map si_probability (shot_infos orig_shots keeps) =
     map (\<lambda>shot. get_or (rs_probability shot) 1) orig_shots"
    by (simp add: shot_infos_def Let_def comp_def)
  have d: "length (new_shots_from fps 0 infos) = length (survivors infos)"
    by (rule new_shots_from_length)
  have e: "\<forall>j < length (survivors infos).
      new_shots_from fps 0 infos ! j =
        \<lparr>ns_start = round_nd (cursor_at infos j) 3,
         ns_end = round_nd (cursor_at infos j + si_kept_len (survivors infos ! j)) 3,
         ns_start_frame = py_round (cursor_at infos j * fps),
         ns_end_frame = py_round ((cursor_at infos j + si_kept_len (survivors infos ! j)) * fps),
         ns_probability = si_probability (survivors infos ! j),
         ns_segments = []\<rparr>"
    using new_shots_from_nth[of _ infos fps 0] by simp
  have f: "new_shots_list fps logical_duration infos =
     (if survivors infos = []
      then [\<lparr>ns_start = 0, ns_end = round_nd logical_duration 3,
             ns_start_frame = 0, ns_end_frame = py_round (logical_duration * fps),
             ns_probability = 1, ns_segments = []\<rparr>]
      else new_shots_from fps 0 infos)"
    using new_shots_from_length[of fps 0 infos] by (auto simp: new_shots_list_def Let_def)
  have g: "map si_kept_len (shot_infos
     [\<lparr>rs_start = Some 0, rs_end = Some 10, rs_probability = Some 0.9, rs_segments = []\<rparr>,
      \<lparr>rs_start = Some 10, rs_end = Some 20, rs_probability = Some 0.8, rs_segments = []\<rparr>,
      \<lparr>rs_start = Some 20, rs_end = Some 100, rs_probability = Some 0.7, rs_segments = []\<rparr>]
     [(0, 5), (15, 100)]) = [5, 5, 80]"
    by (simp add: shot_infos_def get_or_def EPS_def)
  have h: "map (\<lambda>s. (ns_start s, ns_end s, ns_start_frame s, ns_end_frame s, ns_probability s))
     (new_shots_list 30 90 (shot_infos
       [\<lparr>rs_start = Some 0, rs_end = Some 10, rs_probability = Some 0.9, rs_segments = []\<rparr>,
        \<lparr>rs_start = Some 10, rs_end = Some 20, rs_probability = Some 0.8, rs_segments = []\<rparr>,
        \<lparr>rs_start = Some 20, rs_end = Some 100, rs_probability = Some 0.7, rs_segments = []\<rparr>]
       [(0, 5), (15, 100)]))
     = [(0, 5, 0, 150, 0.9), (5, 10, 150, 300, 0.8), (10, 90, 300, 2700, 0.7)]"
    by (simp add: new_shots_list_def shot_infos_def get_or_def EPS_def round_nd_def
        py_round_def Let_def)
  from a b c d e f g h show ?thesis by blast
qed

theorem shot_reconstruction_witness:
  "(1::nat) < length (survivors
      [\<lparr>si_orig_start = 0, si_orig_end = 10, si_probability = 0.9, si_kept_len = 5\<rparr>,
       \<lparr>si_orig_start = 10, si_orig_end = 20, si_probability = 0.8, si_kept_len = 0\<rparr>,
       \<lparr>si_orig_start = 20, si_orig_end = 100, si_probability = 0.7, si_kept_len = 80\<rparr>]) \<and>
   new_shots_from 30 0
      [\<lparr>si_orig_start = 0, si_orig_end = 10, si_probability = 0.9, si_kept_len = 5\<rparr>,
       \<lparr>si_orig_start = 10, si_orig_end = 20, si_probability = 0.8, si_kept_len = 0\<rparr>,
       \<lparr>si_orig_start = 20, si_orig_end = 100, si_probability = 0.7, si_kept_len = 80\<rparr>] ! 1
     = \<lparr>ns_start = 5, ns_end = 85, ns_start_frame = 150, ns_end_frame = 2550,
        ns_probability = 0.7, ns_segments = []\<rparr> \<and>
   list_all (\<lambda>k. overlap (0, 10) k = 0 \<or> overlap (0, 10) k > EPS) [(0, 5), (15, 100)] \<and>
   kept_len_from 0 10 0 [(0, 5), (15, 100)] = spec_kept_length (0, 10) [(0, 5), (15, 100)]"
proof -
  let ?infos = "[\<lparr>si_orig_start = 0, si_orig_end = 10, si_probability = 0.9, si_kept_len = 5\<rparr>,
       \<lparr>si_orig_start = 10, si_orig_end = 20, si_probability = 0.8, si_kept_len = 0\<rparr>,
       \<lparr>si_orig_start = 20, si_orig_end = 100, si_probability = 0.7, si_kept_len = 80\<rparr>]"
  have sv: "survivors ?infos =
      [\<lparr>si_orig_start = 0, si_orig_end = 10, si_probability = 0.9, si_kept_len = 5\<rparr>,
       \<lparr>si_orig_start = 20, si_orig_end = 100, si_probability = 0.7, si_kept_len = 80\<rparr>]"
    by (simp add: survivors_def EPS_def)
  have h1: "(1::nat) < length (survivors ?infos)" unfolding sv by simp
  have h2: "\<forall>k \<in> set [(0, 5), (15, 100)]. overlap (0, 10) k = 0 \<or> overlap (0, 10) k > EPS"
    by (simp add: overlap_def EPS_def)
  have c1: "cursor_at ?infos 1 = 5" unfolding cursor_at_def sv by simp
  have s1: "survivors ?infos ! 1 =
      \<lparr>si_orig_start = 20, si_orig_end = 100, si_probability = 0.7, si_kept_len = 80\<rparr>"
    unfolding sv by simp
  have r1: "round_nd 5 3 = 5" "round_nd 85 3 = 85" "py_round 150 = 150" "py_round 2550 = 2550"
    by (simp_all add: round_nd_def py_round_def)
  from shot_reconstruction[of "[]" "[(0, 5), (15, 100)]" 0 10 30 ?infos 0] h1 h2
  have "new_shots_from 30 0 ?infos ! 1 =
        \<lparr>ns_start = round_nd (cursor_at ?infos 1) 3,
         ns_end = round_nd (cursor_at ?infos 1 + si_kept_len (survivors ?infos ! 1)) 3,
         ns_start_frame = py_round (cursor_at ?infos 1 * 30),
         ns_end_frame = py_round ((cursor_at ?infos 1 + si_kept_len (survivors ?infos ! 1)) * 30),
         ns_probability = si_probability (survivors ?infos ! 1),
         ns_segments = []\<rparr>"
    and k: "kept_len_from 0 10 0 [(0, 5), (15, 100)] = spec_kept_length (0, 10) [(0, 5), (15, 100)]"
    by blast+
  then have "new_shots_from 30 0 ?infos ! 1 =
       \<lparr>ns_start = 5, ns_end = 85, ns_start_frame = 150, ns_end_frame = 2550,
        ns_probability = 0.7, ns_segments = []\<rparr>"
    unfolding c1 s1 by (simp add: r1)
  with h1 h2 k show ?thesis unfolding list_all_iff by blast
qed

text \<open>
  The kept length is not the sum of the overlaps: the shot \<open>(1, 2)\<close> overlaps each of
  the keep intervals \<open>(0, 1.0000008)\<close> and \<open>(1.9999992, 3)\<close> by \<open>0.0000008\<close>, the sum
  \<open>0.0000016\<close> exceeds \<open>EPS\<close>, yet the code counts neither overlap and skips the shot.
\<close>

theorem shot_reconstruction_counterexample:
  "spec_kept_length (1, 2) [(0, 1.0000008), (1.9999992, 3)] = 0.0000016 \<and>
   EPS < spec_kept_length (1, 2) [(0, 1.0000008), (1.9999992, 3)] \<and>
   map si_kept_len
     (shot_infos [\<lparr>rs_start = Some 1, rs_end = Some 2, rs_probability = Some 1, rs_segments = []\<rparr>]
        [(0, 1.0000008), (1.9999992, 3)]) = [0] \<and>
   new_shots_from 30 0
     (shot_infos [\<lparr>rs_start = Some 1, rs_end = Some 2, rs_probability = Some 1, rs_segments = []\<rparr>]
        [(0, 1.0000008), (1.9999992, 3)]) = []"
  by (simp add: spec_kept_length_def overlap_def shot_infos_def get_or_def EPS_def)

section \<open>Windows of the two partitioners\<close>

lemma chain_append:
  "chain a (xs @ ys) b \<longleftrightarrow> (\<exists>m. chain a xs m \<and> chain m ys b)"
  by (induction a xs b rule: chain.induct) auto

lemma chain_le: "chain a ws b \<Longrightarrow> a \<le> b"
  by (induction a ws b rule: chain.induct) auto

lemma groups_from_chain:
  "cur_start \<le> cur_end \<Longrightarrow> shots_ordered cur_end shots \<Longrightarrow>
     chain cur_start (groups_from W cur_start cur_end shots) (span_end cur_end shots)"
proof (induction W cur_start cur_end shots rule: groups_from.induct)
  case (1 W cur_start cur_end)
  then show ?case by (simp add: span_end_def)
next
  case (2 W cur_start cur_end s e shots)
  from "2.prems" have o: "cur_end \<le> s" "s \<le> e" "shots_ordered e shots" by simp_all
  have ce: "(if s > cur_end then s else cur_end) = s" using o by simp
  have sp: "span_end cur_end ((s, e) # shots) = span_end e shots"
    by (simp add: span_end_def)
  show ?case
  proof (cases "s - cur_start < W")
    case True
    have "cur_start \<le> e" using "2.prems"(1) o by simp
    from "2.IH"(1)[OF refl refl _ this o(3)] True ce
    show ?thesis unfolding sp by (simp add: Let_def)
  next
    case False
    from "2.IH"(2)[OF refl refl _ o(2) o(3)] False ce
    have "chain s (groups_from W s e shots) (span_end e shots)" by simp
    then show ?thesis unfolding sp using False ce "2.prems"(1) o by (simp add: Let_def)
  qed
qed

lemma groups_from_not_Nil: "groups_from W cs ce shots \<noteq> []"
  by (induction W cs ce shots rule: groups_from.induct) (auto simp: Let_def)

lemma groups_from_long:
  "long_enough W (butlast (groups_from W cur_start cur_end shots))"
  by (induction W cur_start cur_end shots rule: groups_from.induct)
     (auto simp: Let_def long_enough_def groups_from_not_Nil)

lemma two_last: "2 \<le> length gs \<Longrightarrow> \<exists>xs p l. gs = xs @ [p, l]"
proof (induction gs rule: rev_induct)
  case Nil
  then show ?case by simp
next
  case (snoc l gs)
  then have "gs \<noteq> []" by auto
  then obtain xs p where "gs = xs @ [p]" by (metis append_butlast_last_id)
  then show ?case by simp
qed

lemma merge_short_tail_props:
  assumes c: "chain a gs b" and l: "long_enough W (butlast gs)"
  shows "chain a (merge_short_tail W gs) b \<and>
         long_enough W (butlast (merge_short_tail W gs)) \<and>
         (2 \<le> length (merge_short_tail W gs) \<longrightarrow> long_enough W (merge_short_tail W gs))"
proof (cases "2 \<le> length gs")
  case False
  then show ?thesis using c l by (simp add: merge_short_tail_def)
next
  case True
  then obtain xs p q where gs: "gs = xs @ [p, q]" using two_last by blast
  obtain ps pe where p: "p = (ps, pe)" by (cases p)
  obtain ls le where q: "q = (ls, le)" by (cases q)
  have bl: "butlast gs = xs @ [p]" by (simp add: gs butlast_append)
  from l have lx: "long_enough W xs" and lp: "W \<le> pe - ps"
    by (simp_all add: bl long_enough_def p)
  from c obtain m where m: "chain a xs m" "chain m [(ps, pe), (ls, le)] b"
    unfolding gs p q chain_append by blast
  then have e: "ps = m" "ps \<le> pe" "ls = pe" "ls \<le> le" "le = b" by simp_all
  have tk: "take (length gs - 2) gs = xs" "gs ! (length gs - 2) = p" "last gs = q"
    by (simp_all add: gs nth_append)
  show ?thesis
  proof (cases "le - ls < W")
    case True
    have r: "merge_short_tail W gs = xs @ [(ps, le)]"
      unfolding merge_short_tail_def tk p q using True \<open>2 \<le> length gs\<close> by simp
    have "chain a (xs @ [(ps, le)]) b"
      unfolding chain_append using m(1) e by auto
    moreover have "long_enough W (xs @ [(ps, le)])"
      using lx lp e by (simp add: long_enough_def)
    ultimately show ?thesis unfolding r using lx by simp
  next
    case False
    have r: "merge_short_tail W gs = gs"
      unfolding merge_short_tail_def tk p q using False by simp
    have "long_enough W gs" using l False unfolding gs p q
      by (simp add: long_enough_def butlast_append)
    then show ?thesis unfolding r using c l by simp
  qed
qed

lemma build_bgm_groups_props:
  assumes "shots_ordered lo shots" and "shots \<noteq> []"
  shows "chain (fst (hd shots)) (build_bgm_groups shots W) (snd (last shots)) \<and>
         long_enough W (butlast (build_bgm_groups shots W)) \<and>
         (2 \<le> length (build_bgm_groups shots W) \<longrightarrow> long_enough W (build_bgm_groups shots W))"
proof -
  from assms obtain s0 e0 rest where sh: "shots = (s0, e0) # rest"
    by (cases shots) auto
  with assms have o: "s0 \<le> e0" "shots_ordered e0 rest" by simp_all
  have sp: "span_end e0 rest = snd (last shots)" by (simp add: span_end_def sh)
  have b: "build_bgm_groups shots W = merge_short_tail W (groups_from W s0 e0 rest)"
    by (simp add: build_bgm_groups_def sh)
  from merge_short_tail_props[OF groups_from_chain[OF o, of W] groups_from_long]
  show ?thesis unfolding b sp by (simp add: sh)
qed

lemma accept_from_chain:
  "sorted ts \<Longrightarrow> \<forall>t \<in> set ts. cur \<le> t \<and> t \<le> D \<Longrightarrow> cur \<le> D \<Longrightarrow>
     \<exists>c. chain cur (accept_from W D cur ts) c \<and> c \<le> D \<and> (c = D \<or> D - c \<le> 1 / 10)"
proof (induction ts arbitrary: cur)
  case Nil
  then show ?case by auto
next
  case (Cons t ts)
  from Cons.prems have st: "sorted ts" and ct: "cur \<le> t" "t \<le> D"
    and up: "\<forall>u \<in> set ts. t \<le> u \<and> u \<le> D" by auto
  show ?case
  proof (cases "t - cur \<ge> W \<and> D - t \<ge> W")
    case True
    from Cons.IH[OF st up ct(2)] obtain c where
      "chain t (accept_from W D t ts) c" "c \<le> D" "c = D \<or> D - c \<le> 1 / 10" by blast
    then show ?thesis using True ct by (auto simp: Let_def)
  next
    case False
    have "\<forall>u \<in> set ts. cur \<le> u \<and> u \<le> D" using up ct by auto
    from Cons.IH[OF st this Cons.prems(3)] False show ?thesis by (auto simp: Let_def)
  qed
qed

lemma accept_from_long_tail:
  "W \<le> D - cur \<Longrightarrow> long_enough W (accept_from W D cur ts)"
  by (induction ts arbitrary: cur) (auto simp: Let_def long_enough_def)

lemma accept_from_long:
  "long_enough W (butlast (accept_from W D cur ts)) \<and>
   (2 \<le> length (accept_from W D cur ts) \<longrightarrow> long_enough W (accept_from W D cur ts))"
proof (induction ts arbitrary: cur)
  case Nil
  then show ?case by (simp add: long_enough_def)
next
  case (Cons t ts)
  show ?case
  proof (cases "t - cur \<ge> W \<and> D - t \<ge> W")
    case True
    then have "long_enough W (accept_from W D t ts)" by (simp add: accept_from_long_tail)
    then have "long_enough W ((cur, t) # accept_from W D t ts)"
      using True by (simp add: long_enough_def)
    moreover have "long_enough W (butlast ((cur, t) # accept_from W D t ts))"
      using calculation by (auto simp: long_enough_def list_all_iff dest: in_set_butlastD)
    ultimately show ?thesis using True by (simp add: Let_def)
  next
    case False
    then have "accept_from W D cur (t # ts) = accept_from W D cur ts"
      by (auto simp: Let_def)
    then show ?thesis using Cons.IH[of cur] by simp
  qed
qed

lemma accept_from_full:
  "sorted ts \<Longrightarrow> \<forall>t \<in> set ts. cur \<le> t \<and> t \<le> D \<Longrightarrow> 1 / 10 < D - cur \<Longrightarrow> 1 / 10 < W \<Longrightarrow>
     chain cur (accept_from W D cur ts) D"
proof (induction ts arbitrary: cur)
  case Nil
  then show ?case by auto
next
  case (Cons t ts)
  from Cons.prems have st: "sorted ts" and ct: "cur \<le> t" "t \<le> D"
    and up: "\<forall>u \<in> set ts. t \<le> u \<and> u \<le> D" by auto
  show ?case
  proof (cases "t - cur \<ge> W \<and> D - t \<ge> W")
    case True
    then have "1 / 10 < D - t" using Cons.prems(4) by simp
    from Cons.IH[OF st up this Cons.prems(4)] True ct show ?thesis by (simp add: Let_def)
  next
    case False
    have "\<forall>u \<in> set ts. cur \<le> u \<and> u \<le> D" using up ct by auto
    moreover have "accept_from W D cur (t # ts) = accept_from W D cur ts"
      using False by (auto simp: Let_def)
    ultimately show ?thesis using Cons.IH[OF st _ Cons.prems(3,4)] by simp
  qed
qed

lemma shot_boundaries_props:
  "sorted (shot_boundaries shots D) \<and> (\<forall>t \<in> set (shot_boundaries shots D). 0 \<le> t \<and> t \<le> D)"
  by (auto simp: shot_boundaries_def)

lemma compute_bgm_groups_props:
  assumes "compute_bgm_groups data W = Inr ws"
  shows "(\<exists>c. chain 0 ws c \<and> c \<le> get_or (vid_duration data) 0 \<and>
            (c = get_or (vid_duration data) 0 \<or> get_or (vid_duration data) 0 - c \<le> 1 / 10)) \<and>
         (1 / 10 < get_or (vid_duration data) 0 \<and> 1 / 10 < W \<longrightarrow>
            chain 0 ws (get_or (vid_duration data) 0)) \<and>
         long_enough W (butlast ws) \<and>
         (2 \<le> length ws \<longrightarrow> long_enough W ws)"
proof -
  define D where "D = get_or (vid_duration data) 0"
  from assms have pos: "0 < D"
    by (auto simp: compute_bgm_groups_def D_def Let_def split: if_splits)
  show ?thesis
  proof (cases "collect_shots data = []")
    case True
    with assms pos have "ws = [(0, D)]"
      by (auto simp: compute_bgm_groups_def D_def Let_def split: if_splits)
    then show ?thesis using pos unfolding D_def[symmetric] by (auto simp: long_enough_def)
  next
    case False
    with assms pos have ws: "ws = accept_from W D 0 (shot_boundaries (collect_shots data) D)"
      by (auto simp: compute_bgm_groups_def D_def Let_def split: if_splits)
    note sb = shot_boundaries_props[of "collect_shots data" D]
    have a: "\<exists>c. chain 0 ws c \<and> c \<le> D \<and> (c = D \<or> D - c \<le> 1 / 10)"
      unfolding ws using accept_from_chain[of _ 0 D W] sb pos by simp
    have b: "1 / 10 < D \<and> 1 / 10 < W \<longrightarrow> chain 0 ws D"
      unfolding ws using accept_from_full[of _ 0 D W] sb by simp
    from a b accept_from_long[of W D 0] show ?thesis
      unfolding D_def[symmetric] ws by blast
  qed
qed

text \<open>
  C8 (as the code has it). Greedy variant: for shots that are sorted, well-formed and
  not overlapping, the windows are contiguous and ordered and cover the span from the
  start of the first shot to the end of the last with no gap and no overlap; every
  window but the last is at least \<open>W\<close> long, and so is the last unless it is the only
  one. Boundary variant, for a document of positive duration: the windows are
  contiguous and ordered from 0 and end at the duration or at most \<open>0.1\<close> before it
  (a last window of at most \<open>0.1\<close> is not emitted); they cover \<open>[0, duration]\<close> when
  the duration and \<open>W\<close> both exceed \<open>0.1\<close>; every window but the last is at least \<open>W\<close>
  long, and so is the last unless it is the only one. The scenario: the greedy variant
  with \<open>W = 15\<close> on \<open>[(0,5),(5,8),(8,20)]\<close> gives the single window \<open>(0,20)\<close>.
\<close>

theorem window_partition:
  "(shots_ordered lo shots \<and> shots \<noteq> [] \<longrightarrow>
      chain (fst (hd shots)) (build_bgm_groups shots W) (snd (last shots)) \<and>
      long_enough W (butlast (build_bgm_groups shots W)) \<and>
      (2 \<le> length (build_bgm_groups shots W) \<longrightarrow> long_enough W (build_bgm_groups shots W))) \<and>
   (compute_bgm_groups data W = Inr ws \<longrightarrow>
      (\<exists>c. chain 0 ws c \<and> c \<le> get_or (vid_duration data) 0 \<and>
            (c = get_or (vid_duration data) 0 \<or> get_or (vid_duration data) 0 - c \<le> 1 / 10)) \<and>
      (1 / 10 < get_or (vid_duration data) 0 \<and> 1 / 10 < W \<longrightarrow>
         chain 0 ws (get_or (vid_duration data) 0)) \<and>
      long_enough W (butlast ws) \<and>
      (2 \<le> length ws \<longrightarrow> long_enough W ws)) \<and>
   build_bgm_groups [(0, 5), (5, 8), (8, 20)] 15 = [(0, 20)]"
proof -
  have "build_bgm_groups [(0, 5), (5, 8), (8, 20)] 15 = [(0, 20)]"
    by (simp add: build_bgm_groups_def merge_short_tail_def Let_def)
  with build_bgm_groups_props[of lo shots W] compute_bgm_groups_props[of data W ws]
  show ?thesis by blast
qed

theorem window_partition_witness:
  "shots_ordered 0 [(0, 5), (5, 8), (8, 20)] \<and>
   chain 0 (build_bgm_groups [(0, 5), (5, 8), (8, 20)] 15) 20 \<and>
   compute_bgm_groups
     \<lparr>vid_duration = Some 60, vid_fps = Some 30,
      doc_shots =
        [(''shot_1'', [\<lparr>rs_start = Some 0, rs_end = Some 20, rs_probability = Some 1, rs_segments = []\<rparr>]),
         (''shot_2'', [\<lparr>rs_start = Some 20, rs_end = Some 40, rs_probability = Some 1, rs_segments = []\<rparr>]),
         (''shot_3'', [\<lparr>rs_start = Some 40, rs_end = Some 60, rs_probability = Some 1, rs_segments = []\<rparr>])]\<rparr>
     15 = Inr [(0, 20), (20, 40), (40, 60)] \<and>
   chain 0 [(0, 20), (20, 40), (40, 60)] 60 \<and>
   long_enough 15 [(0, 20), (20, 40), (40, 60)]"
proof -
  let ?shots = "[(0::real, 5::real), (5, 8), (8, 20)]"
  let ?doc = "\<lparr>vid_duration = Some 60, vid_fps = Some 30,
      doc_shots =
        [(''shot_1'', [\<lparr>rs_start = Some 0, rs_end = Some 20, rs_probability = Some 1, rs_segments = []\<rparr>]),
         (''shot_2'', [\<lparr>rs_start = Some 20, rs_end = Some 40, rs_probability = Some 1, rs_segments = []\<rparr>]),
         (''shot_3'', [\<lparr>rs_start = Some 40, rs_end = Some 60, rs_probability = Some 1, rs_segments = []\<rparr>])]\<rparr>"
  have h1: "shots_ordered 0 ?shots \<and> ?shots \<noteq> []" by simp
  have h2: "compute_bgm_groups ?doc 15 = Inr [(0, 20), (20, 40), (40, 60)]"
    by (simp add: compute_bgm_groups_def get_or_def collect_shots_def first_shots_def
        shot_boundaries_def Let_def)
  have h3: "1 / 10 < get_or (vid_duration ?doc) 0 \<and> (1::real) / 10 < 15"
    by (simp add: get_or_def)
  have h4: "(2::nat) \<le> length [(0::real, 20::real), (20, 40), (40, 60)]" by simp
  have d: "get_or (vid_duration ?doc) 0 = 60" by (simp add: get_or_def)
  from window_partition[of 0 ?shots 15 ?doc "[(0, 20), (20, 40), (40, 60)]"] h1 h2 h3 h4
  have "chain (fst (hd ?shots)) (build_bgm_groups ?shots 15) (snd (last ?shots))"
    and "chain 0 [(0, 20), (20, 40), (40, 60)] (get_or (vid_duration ?doc) 0)"
    and "long_enough 15 [(0, 20), (20, 40), (40, 60)]"
    by blast+
  then show ?thesis using h1 h2 unfolding d by simp
qed

text \<open>
  The boundary variant emits no window at all for a recording of \<open>0.05\<close> seconds with
  one shot, so nothing of \<open>[0, 0.05]\<close> is covered; the greedy variant on the sorted
  shots \<open>(0,20)\<close> and \<open>(10,40)\<close>, which overlap, gives two windows that overlap.
\<close>

theorem window_partition_counterexample:
  "compute_bgm_groups
     \<lparr>vid_duration = Some 0.05, vid_fps = Some 30,
      doc_shots = [(''shot_1'', [\<lparr>rs_start = Some 0, rs_end = Some 0.05,
                                  rs_probability = Some 1, rs_segments = []\<rparr>])]\<rparr> 15 = Inr [] \<and>
   \<not> chain 0 [] 0.05 \<and>
   build_bgm_groups [(0, 20), (10, 40)] 15 = [(0, 20), (10, 40)] \<and>
   \<not> chain 0 [(0, 20), (10, 40)] 40"
  by (simp add: compute_bgm_groups_def get_or_def collect_shots_def first_shots_def
      shot_boundaries_def build_bgm_groups_def merge_short_tail_def Let_def)

section \<open>Properties of the timeline remapper\<close>

lemma py_round_low: "x - of_int \<lfloor>x\<rfloor> < 1 / 2 \<Longrightarrow> py_round x = \<lfloor>x\<rfloor>"
  by (simp add: py_round_def Let_def)

lemma py_round_high: "1 / 2 < x - of_int \<lfloor>x\<rfloor> \<Longrightarrow> py_round x = \<lfloor>x\<rfloor> + 1"
  by (simp add: py_round_def Let_def)

lemma py_round_bounds: "\<lfloor>x\<rfloor> \<le> py_round x \<and> py_round x \<le> \<lfloor>x\<rfloor> + 1"
  by (simp add: py_round_def Let_def)

lemma py_round_mono:
  assumes "x \<le> y"
  shows "py_round x \<le> py_round y"
proof (cases "\<lfloor>x\<rfloor> < \<lfloor>y\<rfloor>")
  case True
  have "py_round x \<le> \<lfloor>x\<rfloor> + 1" using py_round_bounds by blast
  also have "\<dots> \<le> \<lfloor>y\<rfloor>" using True by simp
  also have "\<dots> \<le> py_round y" using py_round_bounds by blast
  finally show ?thesis .
next
  case False
  moreover have "\<lfloor>x\<rfloor> \<le> \<lfloor>y\<rfloor>" using assms by (rule floor_mono)
  ultimately have eq: "\<lfloor>y\<rfloor> = \<lfloor>x\<rfloor>" by simp
  show ?thesis using assms unfolding py_round_def Let_def eq by auto
qed

lemma py_round_step:
  assumes "x + 1 < y"
  shows "py_round x + 1 \<le> py_round y"
proof (cases "x - of_int \<lfloor>x\<rfloor> < 1 / 2")
  case True
  then have "py_round x = \<lfloor>x\<rfloor>" by (rule py_round_low)
  moreover have "of_int (\<lfloor>x\<rfloor> + 1) \<le> y" using assms by linarith
  then have "\<lfloor>x\<rfloor> + 1 \<le> \<lfloor>y\<rfloor>" by (simp only: le_floor_iff)
  ultimately show ?thesis using py_round_bounds[of y] by linarith
next
  case False
  have px: "py_round x \<le> \<lfloor>x\<rfloor> + 1" using py_round_bounds by blast
  have "of_int (\<lfloor>x\<rfloor> + 1) \<le> y" using assms by linarith
  then have fy: "\<lfloor>x\<rfloor> + 1 \<le> \<lfloor>y\<rfloor>" by (simp only: le_floor_iff)
  show ?thesis
  proof (cases "\<lfloor>x\<rfloor> + 2 \<le> \<lfloor>y\<rfloor>")
    case True
    then show ?thesis using px py_round_bounds[of y] by linarith
  next
    case False
    with fy have eq: "\<lfloor>y\<rfloor> = \<lfloor>x\<rfloor> + 1" by simp
    have "1 / 2 < y - of_int \<lfloor>y\<rfloor>" using assms \<open>\<not> x - of_int \<lfloor>x\<rfloor> < 1 / 2\<close> unfolding eq by simp
    then have "py_round y = \<lfloor>y\<rfloor> + 1" by (rule py_round_high)
    then show ?thesis using px eq by simp
  qed
qed

lemma round_nd_mono: "x \<le> y \<Longrightarrow> round_nd x n \<le> round_nd y n"
proof -
  assume "x \<le> y"
  then have "x * 10 ^ n \<le> y * 10 ^ n" by simp
  then have "py_round (x * 10 ^ n) \<le> py_round (y * 10 ^ n)" by (rule py_round_mono)
  then show ?thesis by (simp add: round_nd_def divide_right_mono)
qed

lemma round_nd_0: "round_nd 0 n = 0"
  by (simp add: round_nd_def py_round_def)

lemma round_nd_step:
  assumes "x + 1 / 100 < y"
  shows "round_nd x 2 + 1 / 100 \<le> round_nd y 2"
proof -
  have "x * 10 ^ 2 + 1 < y * 10 ^ 2" using assms by simp
  then have "py_round (x * 10 ^ 2) + 1 \<le> py_round (y * 10 ^ 2)" by (rule py_round_step)
  then have "real_of_int (py_round (x * 10 ^ 2)) + 1 \<le> real_of_int (py_round (y * 10 ^ 2))"
    by linarith
  then show ?thesis by (simp add: round_nd_def field_simps)
qed

lemma remap_from_unfold:
  "remap_from t (seg # flat) =
     (if flat_len seg \<le> 0.01 then remap_from t flat
      else (\<lparr>seg_text = fs_text seg,
             orig_start = round_nd (orig_seg_start seg) 3,
             orig_end = round_nd (orig_seg_end seg) 3,
             seg_start = round_nd t 2, seg_end = round_nd (t + flat_len seg) 2\<rparr>
              # fst (remap_from (t + flat_len seg) flat),
            snd (remap_from (t + flat_len seg) flat)))"
  unfolding flat_len_def remap_from.simps Let_def case_prod_beta ..

lemma remap_from_short: "\<not> long_seg seg \<Longrightarrow> remap_from t (seg # flat) = remap_from t flat"
  unfolding remap_from_unfold long_seg_def not_less by (rule if_P)

lemma remap_from_long_step:
  "long_seg seg \<Longrightarrow>
     remap_from t (seg # flat) =
       (\<lparr>seg_text = fs_text seg,
         orig_start = round_nd (orig_seg_start seg) 3,
         orig_end = round_nd (orig_seg_end seg) 3,
         seg_start = round_nd t 2, seg_end = round_nd (t + flat_len seg) 2\<rparr>
          # fst (remap_from (t + flat_len seg) flat),
        snd (remap_from (t + flat_len seg) flat))"
  unfolding remap_from_unfold long_seg_def not_le[symmetric] by (rule if_not_P)

lemma remap_from_chain:
  "seg_chain (round_nd t 2) (fst (remap_from t flat)) (round_nd (snd (remap_from t flat)) 2)"
proof (induction flat arbitrary: t)
  case Nil
  then show ?case by simp
next
  case (Cons seg flat)
  show ?case
  proof (cases "long_seg seg")
    case False
    show ?thesis unfolding remap_from_short[OF False] by (rule Cons.IH)
  next
    case True
    have "round_nd t 2 \<le> round_nd (t + flat_len seg) 2"
      by (rule round_nd_mono) (simp add: flat_len_def)
    then show ?thesis unfolding remap_from_long_step[OF True]
      using Cons.IH[of "t + flat_len seg"] by simp
  qed
qed

lemma remap_from_long:
  "\<forall>seg \<in> set (fst (remap_from t flat)). seg_start seg + 1 / 100 \<le> seg_end seg"
proof (induction flat arbitrary: t)
  case Nil
  then show ?case by simp
next
  case (Cons seg flat)
  show ?case
  proof (cases "long_seg seg")
    case False
    show ?thesis unfolding remap_from_short[OF False] by (rule Cons.IH)
  next
    case True
    then have "t + 1 / 100 < t + flat_len seg" by (simp add: long_seg_def)
    then have "round_nd t 2 + 1 / 100 \<le> round_nd (t + flat_len seg) 2" by (rule round_nd_step)
    then show ?thesis unfolding remap_from_long_step[OF True]
      using Cons.IH[of "t + flat_len seg"] by simp
  qed
qed

lemma remap_from_origin:
  "map (\<lambda>seg. (seg_text seg, orig_start seg, orig_end seg)) (fst (remap_from t flat)) =
     map (\<lambda>seg. (fs_text seg, round_nd (orig_seg_start seg) 3, round_nd (orig_seg_end seg) 3))
       (filter long_seg flat)"
proof (induction flat arbitrary: t)
  case Nil
  then show ?case by simp
next
  case (Cons seg flat)
  show ?case
  proof (cases "long_seg seg")
    case False
    show ?thesis unfolding remap_from_short[OF False] using False Cons.IH by simp
  next
    case True
    show ?thesis unfolding remap_from_long_step[OF True] using True Cons.IH by simp
  qed
qed

lemma remap_from_total: "snd (remap_from t flat) = t + sum_list (map flat_len (filter long_seg flat))"
proof (induction flat arbitrary: t)
  case Nil
  then show ?case by simp
next
  case (Cons seg flat)
  show ?case
  proof (cases "long_seg seg")
    case False
    show ?thesis unfolding remap_from_short[OF False] using False Cons.IH by simp
  next
    case True
    show ?thesis unfolding remap_from_long_step[OF True] using True Cons.IH by simp
  qed
qed

lemma rescale_from_eq:
  "seg_chain a segs b \<Longrightarrow>
     rescale_from ratio (ratio * a) segs = (map (spec_rescaled ratio) segs, ratio * b)"
proof (induction segs arbitrary: a)
  case Nil
  then show ?case by simp
next
  case (Cons seg segs)
  then have st: "seg_start seg = a" and ch: "seg_chain (seg_end seg) segs b" by simp_all
  have t: "ratio * a + (seg_end seg - seg_start seg) * ratio = ratio * seg_end seg"
    unfolding st by (simp add: algebra_simps)
  show ?case
    using Cons.IH[OF ch] st unfolding rescale_from.simps Let_def t
    by (simp add: spec_rescaled_def)
qed

lemma rescaled_chain:
  "0 \<le> ratio \<Longrightarrow> seg_chain a segs b \<Longrightarrow>
     seg_chain (round_nd (ratio * a) 2) (map (spec_rescaled ratio) segs) (round_nd (ratio * b) 2)"
proof (induction segs arbitrary: a)
  case Nil
  then show ?case by simp
next
  case (Cons seg segs)
  then have st: "seg_start seg = a" "seg_start seg \<le> seg_end seg"
    and ch: "seg_chain (seg_end seg) segs b" by simp_all
  have "ratio * seg_start seg \<le> ratio * seg_end seg"
    using st(2) Cons.prems(1) by (rule mult_left_mono)
  then have "round_nd (ratio * seg_start seg) 2 \<le> round_nd (ratio * seg_end seg) 2"
    by (rule round_nd_mono)
  then show ?case using Cons.IH[OF Cons.prems(1) ch] st
    by (simp add: spec_rescaled_def)
qed

lemma seg_chain_props:
  "seg_chain a segs b \<Longrightarrow>
     sorted (map seg_start segs) \<and>
     (\<forall>i. Suc i < length segs \<longrightarrow> seg_end (segs ! i) = seg_start (segs ! Suc i)) \<and>
     (\<forall>seg \<in> set segs. a \<le> seg_start seg \<and> seg_start seg \<le> seg_end seg \<and> seg_end seg \<le> b)"
proof (induction segs arbitrary: a)
  case Nil
  then show ?case by simp
next
  case (Cons seg segs)
  then have st: "seg_start seg = a" "seg_start seg \<le> seg_end seg"
    and ch: "seg_chain (seg_end seg) segs b" by simp_all
  note IH = Cons.IH[OF ch]
  have le: "seg_end seg \<le> b" using ch IH by (cases segs) auto
  have "\<forall>i. Suc i < length (seg # segs) \<longrightarrow>
          seg_end ((seg # segs) ! i) = seg_start ((seg # segs) ! Suc i)"
  proof (intro allI impI)
    fix i assume i: "Suc i < length (seg # segs)"
    show "seg_end ((seg # segs) ! i) = seg_start ((seg # segs) ! Suc i)"
    proof (cases i)
      case 0
      with i ch show ?thesis by (cases segs) auto
    next
      case (Suc k)
      with i IH show ?thesis by simp
    qed
  qed
  moreover have "sorted (map seg_start (seg # segs))"
    using IH st by auto
  moreover have "\<forall>s \<in> set (seg # segs). a \<le> seg_start s \<and> seg_start s \<le> seg_end s \<and> seg_end s \<le> b"
    using IH st le by auto
  ultimately show ?case by blast
qed

lemma remap_segments_eq:
  "remap_segments flat hardcut_duration =
     (if 0 < hardcut_duration \<and> hardcut_duration + 1 / 1000 < snd (remap_from 0 flat)
      then (map (spec_rescaled (hardcut_duration / snd (remap_from 0 flat)))
              (fst (remap_from 0 flat)),
            hardcut_duration / snd (remap_from 0 flat) * round_nd (snd (remap_from 0 flat)) 2)
      else remap_from 0 flat)"
proof -
  have "seg_chain 0 (fst (remap_from 0 flat)) (round_nd (snd (remap_from 0 flat)) 2)"
    using remap_from_chain[of 0 flat] by (simp add: round_nd_0)
  from rescale_from_eq[OF this, of "hardcut_duration / snd (remap_from 0 flat)"]
  show ?thesis by (simp add: remap_segments_def case_prod_beta)
qed

lemma rescaled_origin:
  "map (\<lambda>seg. (seg_text seg, orig_start seg, orig_end seg)) (map (spec_rescaled ratio) segs)
     = map (\<lambda>seg. (seg_text seg, orig_start seg, orig_end seg)) segs"
  by (simp add: spec_rescaled_def comp_def)

lemma remap_segments_chain:
  "seg_chain 0 (fst (remap_segments flat hardcut_duration))
     (round_nd (snd (remap_segments flat hardcut_duration)) 2)"
proof -
  have c: "seg_chain 0 (fst (remap_from 0 flat)) (round_nd (snd (remap_from 0 flat)) 2)"
    using remap_from_chain[of 0 flat] by (simp add: round_nd_0)
  show ?thesis
  proof (cases "0 < hardcut_duration \<and> hardcut_duration + 1 / 1000 < snd (remap_from 0 flat)")
    case False
    then show ?thesis using c unfolding remap_segments_eq by auto
  next
    case True
    then have r: "0 \<le> hardcut_duration / snd (remap_from 0 flat)" by simp
    from rescaled_chain[OF r c] True show ?thesis
      unfolding remap_segments_eq by (simp add: round_nd_0)
  qed
qed

text \<open>
  C5 (as the code has it). After the remapper, with or without the rescale, the
  starts of the output segments do not decrease in traversal order, each segment ends
  exactly where the next one starts, no segment ends before it starts, and the output
  segments are the input segments of original length above \<open>0.01\<close>, in order, with
  their text and rounded original times; without the rescale every output segment
  lasts at least \<open>0.01\<close>.
\<close>

theorem remap_invariant:
  "sorted (map seg_start (fst (remap_segments flat hardcut_duration))) \<and>
   (\<forall>i. Suc i < length (fst (remap_segments flat hardcut_duration)) \<longrightarrow>
      seg_end (fst (remap_segments flat hardcut_duration) ! i)
        = seg_start (fst (remap_segments flat hardcut_duration) ! Suc i)) \<and>
   (\<forall>seg \<in> set (fst (remap_segments flat hardcut_duration)).
      0 \<le> seg_start seg \<and> seg_start seg \<le> seg_end seg) \<and>
   map (\<lambda>seg. (seg_text seg, orig_start seg, orig_end seg)) (fst (remap_segments flat hardcut_duration))
     = map (\<lambda>seg. (fs_text seg, round_nd (orig_seg_start seg) 3, round_nd (orig_seg_end seg) 3))
         (filter long_seg flat) \<and>
   (\<not> (0 < hardcut_duration \<and> hardcut_duration + 1 / 1000 < snd (remap_from 0 flat)) \<longrightarrow>
      (\<forall>seg \<in> set (fst (remap_segments flat hardcut_duration)).
         seg_start seg + 1 / 100 \<le> seg_end seg))"
proof -
  note p = seg_chain_props[OF remap_segments_chain[of flat hardcut_duration]]
  have o: "map (\<lambda>seg. (seg_text seg, orig_start seg, orig_end seg))
             (fst (remap_segments flat hardcut_duration))
     = map (\<lambda>seg. (fs_text seg, round_nd (orig_seg_start seg) 3, round_nd (orig_seg_end seg) 3))
         (filter long_seg flat)"
    unfolding remap_segments_eq using remap_from_origin[of 0 flat]
    by (simp add: rescaled_origin del: map_map)
  have l: "\<not> (0 < hardcut_duration \<and> hardcut_duration + 1 / 1000 < snd (remap_from 0 flat)) \<longrightarrow>
      (\<forall>seg \<in> set (fst (remap_segments flat hardcut_duration)).
         seg_start seg + 1 / 100 \<le> seg_end seg)"
    unfolding remap_segments_eq using remap_from_long[of 0 flat] by auto
  from p o l show ?thesis by blast
qed

theorem remap_invariant_witness:
  "\<not> ((0::real) < 100 \<and> 100 + 1 / 1000 < snd (remap_from 0
      [\<lparr>fs_text = ''a'', orig_seg_start = 0, orig_seg_end = 5\<rparr>,
       \<lparr>fs_text = ''b'', orig_seg_start = 5, orig_seg_end = 5.005\<rparr>,
       \<lparr>fs_text = ''c'', orig_seg_start = 5, orig_seg_end = 12.5\<rparr>])) \<and>
   fst (remap_segments
      [\<lparr>fs_text = ''a'', orig_seg_start = 0, orig_seg_end = 5\<rparr>,
       \<lparr>fs_text = ''b'', orig_seg_start = 5, orig_seg_end = 5.005\<rparr>,
       \<lparr>fs_text = ''c'', orig_seg_start = 5, orig_seg_end = 12.5\<rparr>] 100)
     = [\<lparr>seg_text = ''a'', orig_start = 0, orig_end = 5, seg_start = 0, seg_end = 5\<rparr>,
        \<lparr>seg_text = ''c'', orig_start = 5, orig_end = 12.5, seg_start = 5, seg_end = 12.5\<rparr>] \<and>
   seg_end (fst (remap_segments
      [\<lparr>fs_text = ''a'', orig_seg_start = 0, orig_seg_end = 5\<rparr>,
       \<lparr>fs_text = ''b'', orig_seg_start = 5, orig_seg_end = 5.005\<rparr>,
       \<lparr>fs_text = ''c'', orig_seg_start = 5, orig_seg_end = 12.5\<rparr>] 100) ! 0)
     = seg_start (fst (remap_segments
      [\<lparr>fs_text = ''a'', orig_seg_start = 0, orig_seg_end = 5\<rparr>,
       \<lparr>fs_text = ''b'', orig_seg_start = 5, orig_seg_end = 5.005\<rparr>,
       \<lparr>fs_text = ''c'', orig_seg_start = 5, orig_seg_end = 12.5\<rparr>] 100) ! Suc 0) \<and>
   list_all (\<lambda>seg. seg_start seg + 1 / 100 \<le> seg_end seg) (fst (remap_segments
      [\<lparr>fs_text = ''a'', orig_seg_start = 0, orig_seg_end = 5\<rparr>,
       \<lparr>fs_text = ''b'', orig_seg_start = 5, orig_seg_end = 5.005\<rparr>,
       \<lparr>fs_text = ''c'', orig_seg_start = 5, orig_seg_end = 12.5\<rparr>] 100))"
proof -
  let ?flat = "[\<lparr>fs_text = ''a'', orig_seg_start = 0, orig_seg_end = 5\<rparr>,
       \<lparr>fs_text = ''b'', orig_seg_start = 5, orig_seg_end = 5.005\<rparr>,
       \<lparr>fs_text = ''c'', orig_seg_start = 5, orig_seg_end = 12.5\<rparr>]"
  have v: "remap_from 0 ?flat
     = ([\<lparr>seg_text = ''a'', orig_start = 0, orig_end = 5, seg_start = 0, seg_end = 5\<rparr>,
         \<lparr>seg_text = ''c'', orig_start = 5, orig_end = 12.5, seg_start = 5, seg_end = 12.5\<rparr>], 12.5)"
    by (simp add: round_nd_def py_round_def Let_def)
  have h1: "\<not> ((0::real) < 100 \<and> 100 + 1 / 1000 < snd (remap_from 0 ?flat))"
    unfolding v by simp
  have r: "fst (remap_segments ?flat 100)
     = [\<lparr>seg_text = ''a'', orig_start = 0, orig_end = 5, seg_start = 0, seg_end = 5\<rparr>,
        \<lparr>seg_text = ''c'', orig_start = 5, orig_end = 12.5, seg_start = 5, seg_end = 12.5\<rparr>]"
    unfolding remap_segments_def v by simp
  have h2: "Suc 0 < length (fst (remap_segments ?flat 100))" unfolding r by simp
  from remap_invariant[of ?flat 100] h1 h2
  have "seg_end (fst (remap_segments ?flat 100) ! 0)
          = seg_start (fst (remap_segments ?flat 100) ! Suc 0)"
    and "\<forall>seg \<in> set (fst (remap_segments ?flat 100)). seg_start seg + 1 / 100 \<le> seg_end seg"
    by blast+
  with h1 r show ?thesis unfolding list_all_iff by blast
qed

text \<open>
  An output segment need not last more than \<open>0.01\<close>: the single segment \<open>(0, 0.014)\<close>
  becomes \<open>(0, 0.01)\<close>, and after a rescale by \<open>1/100\<close> the segment \<open>(0, 0.02)\<close> becomes
  \<open>(0, 0)\<close>.
\<close>

theorem remap_invariant_counterexample:
  "remap_segments [\<lparr>fs_text = ''a'', orig_seg_start = 0, orig_seg_end = 0.014\<rparr>] 100
     = ([\<lparr>seg_text = ''a'', orig_start = 0, orig_end = 0.014, seg_start = 0, seg_end = 0.01\<rparr>],
        0.014) \<and>
   \<not> list_all (\<lambda>seg. seg_end seg - seg_start seg > 0.01)
        (fst (remap_segments [\<lparr>fs_text = ''a'', orig_seg_start = 0, orig_seg_end = 0.014\<rparr>] 100)) \<and>
   remap_segments [\<lparr>fs_text = ''a'', orig_seg_start = 0, orig_seg_end = 0.02\<rparr>,
                   \<lparr>fs_text = ''b'', orig_seg_start = 0, orig_seg_end = 99.98\<rparr>] 1
     = ([\<lparr>seg_text = ''a'', orig_start = 0, orig_end = 0.02, seg_start = 0, seg_end = 0\<rparr>,
         \<lparr>seg_text = ''b'', orig_start = 0, orig_end = 99.98, seg_start = 0, seg_end = 1\<rparr>], 1)"
  by (simp add: remap_segments_def round_nd_def py_round_def Let_def)

text \<open>
  C6 (as the code has it). The logical duration of the first pass is the sum of the
  original lengths above \<open>0.01\<close>. If the post-cut duration is positive and the logical
  duration exceeds it by more than \<open>0.001\<close>, the second pass with its recomputed
  running offset sets every start and end to the first-pass value times
  \<open>hardcut_duration / logical_duration\<close>, rounded to two decimals, and stores that
  factor times the rounded logical duration as the new logical duration; otherwise the
  first pass stands. The scenario: segments of 120 seconds in total against a post-cut
  duration of 100 are scaled by \<open>100/120\<close> and end at 100.
\<close>

theorem rescale_policy:
  "snd (remap_from 0 flat) = sum_list (map flat_len (filter long_seg flat)) \<and>
   remap_segments flat hardcut_duration =
     (if 0 < hardcut_duration \<and> hardcut_duration + 1 / 1000 < snd (remap_from 0 flat)
      then (map (spec_rescaled (hardcut_duration / snd (remap_from 0 flat)))
              (fst (remap_from 0 flat)),
            hardcut_duration / snd (remap_from 0 flat) * round_nd (snd (remap_from 0 flat)) 2)
      else remap_from 0 flat) \<and>
   remap_segments
     [\<lparr>fs_text = ''a'', orig_seg_start = 0, orig_seg_end = 60\<rparr>,
      \<lparr>fs_text = ''b'', orig_seg_start = 60, orig_seg_end = 120\<rparr>] 100
   = ([\<lparr>seg_text = ''a'', orig_start = 0, orig_end = 60, seg_start = 0, seg_end = 50\<rparr>,
       \<lparr>seg_text = ''b'', orig_start = 60, orig_end = 120, seg_start = 50, seg_end = 100\<rparr>], 100)"
proof -
  have "remap_segments
     [\<lparr>fs_text = ''a'', orig_seg_start = 0, orig_seg_end = 60\<rparr>,
      \<lparr>fs_text = ''b'', orig_seg_start = 60, orig_seg_end = 120\<rparr>] 100
   = ([\<lparr>seg_text = ''a'', orig_start = 0, orig_end = 60, seg_start = 0, seg_end = 50\<rparr>,
       \<lparr>seg_text = ''b'', orig_start = 60, orig_end = 120, seg_start = 50, seg_end = 100\<rparr>], 100)"
    by (simp add: remap_segments_def round_nd_def py_round_def Let_def)
  with remap_from_total[of 0 flat] remap_segments_eq[of flat hardcut_duration]
  show ?thesis by simp
qed

theorem rescale_policy_witness:
  "remap_segments
     [\<lparr>fs_text = ''a'', orig_seg_start = 0, orig_seg_end = 30\<rparr>,
      \<lparr>fs_text = ''b'', orig_seg_start = 40, orig_seg_end = 50\<rparr>] 10
   = ([\<lparr>seg_text = ''a'', orig_start = 0, orig_end = 30, seg_start = 0, seg_end = 7.5\<rparr>,
       \<lparr>seg_text = ''b'', orig_start = 40, orig_end = 50, seg_start = 7.5, seg_end = 10\<rparr>], 10)"
proof -
  let ?flat = "[\<lparr>fs_text = ''a'', orig_seg_start = 0, orig_seg_end = 30\<rparr>,
      \<lparr>fs_text = ''b'', orig_seg_start = 40, orig_seg_end = 50\<rparr>]"
  have v: "remap_from 0 ?flat
     = ([\<lparr>seg_text = ''a'', orig_start = 0, orig_end = 30, seg_start = 0, seg_end = 30\<rparr>,
         \<lparr>seg_text = ''b'', orig_start = 40, orig_end = 50, seg_start = 30, seg_end = 40\<rparr>], 40)"
    by (simp add: round_nd_def py_round_def Let_def)
  from rescale_policy[of ?flat 10]
  have "remap_segments ?flat 10 =
     (if (0::real) < 10 \<and> 10 + 1 / 1000 < snd (remap_from 0 ?flat)
      then (map (spec_rescaled (10 / snd (remap_from 0 ?flat))) (fst (remap_from 0 ?flat)),
            10 / snd (remap_from 0 ?flat) * round_nd (snd (remap_from 0 ?flat)) 2)
      else remap_from 0 ?flat)" by blast
  then show ?thesis unfolding v by (simp add: spec_rescaled_def round_nd_def py_round_def)
qed

text \<open>
  No rescale for a logical duration of \<open>100.0004\<close> against a post-cut duration of 100,
  which it exceeds by more than \<open>EPS\<close>, and none for a post-cut duration of 0.
\<close>

theorem rescale_policy_counterexample:
  "100 + EPS < snd (remap_from 0 [\<lparr>fs_text = ''a'', orig_seg_start = 0, orig_seg_end = 100.0004\<rparr>]) \<and>
   remap_segments [\<lparr>fs_text = ''a'', orig_seg_start = 0, orig_seg_end = 100.0004\<rparr>] 100
     = ([\<lparr>seg_text = ''a'', orig_start = 0, orig_end = 100, seg_start = 0, seg_end = 100\<rparr>],
        100.0004) \<and>
   0 + EPS < snd (remap_from 0 [\<lparr>fs_text = ''a'', orig_seg_start = 0, orig_seg_end = 120\<rparr>]) \<and>
   remap_segments [\<lparr>fs_text = ''a'', orig_seg_start = 0, orig_seg_end = 120\<rparr>] 0
     = ([\<lparr>seg_text = ''a'', orig_start = 0, orig_end = 120, seg_start = 0, seg_end = 120\<rparr>], 120)"
  by (simp add: remap_segments_def round_nd_def py_round_def Let_def EPS_def)

end
